theory Spec2Isabelle
  imports Complex_Main
begin

section \<open>The multigrid relaxation notebook\<close>

text \<open>
  The notebook solves a one-dimensional Poisson-type boundary-value problem with a damped
  Jacobi smoother, full-weighting restriction, linear prolongation, a recursive V-cycle and
  a full-multigrid driver. A numpy array of one dimension is a \<open>real list\<close>: the
  \<open>float64\<close> entries are real numbers with exact arithmetic, so every equation below is an
  equation between real numbers, and rounding, overflow, infinities and NaN are outside
  the model. Every exception the notebook can raise is a value of \<open>np_error\<close>
  on the left of a sum; \<open>RecursionError\<close> is raised only by the variants with a bound on
  the depth of the recursion.
\<close>

subsection \<open>Errors and sequencing\<close>

datatype np_error = ValueError | IndexError | ZeroDivisionError | RecursionError

type_synonym 'a result = "np_error + 'a"

definition bindE :: "'a result \<Rightarrow> ('a \<Rightarrow> 'b result) \<Rightarrow> 'b result" where
  "bindE m f = (case m of Inl e \<Rightarrow> Inl e | Inr x \<Rightarrow> f x)"

lemma bindE_cong [fundef_cong]:
  "m = m' \<Longrightarrow> (\<And>x. m' = Inr x \<Longrightarrow> f x = f' x) \<Longrightarrow> bindE m f = bindE m' f'"
  by (cases m') (simp_all add: bindE_def)

subsection \<open>The numpy operations the notebook uses\<close>

text \<open>
  An elementwise binary operation on two arrays of one dimension broadcasts an array of
  length one against the other operand and raises \<open>ValueError\<close> on any other pair of
  different lengths.
\<close>

definition np_binop :: "(real \<Rightarrow> real \<Rightarrow> real) \<Rightarrow> real list \<Rightarrow> real list \<Rightarrow> real list result" where
  "np_binop f xs ys =
     (if length xs = length ys then Inr (map2 f xs ys)
      else if length xs = 1 then Inr (map (f (hd xs)) ys)
      else if length ys = 1 then Inr (map (\<lambda>x. f x (hd ys)) xs)
      else Inl ValueError)"

definition np_add :: "real list \<Rightarrow> real list \<Rightarrow> real list result" where
  "np_add = np_binop (+)"

definition np_sub :: "real list \<Rightarrow> real list \<Rightarrow> real list result" where
  "np_sub = np_binop (-)"

text \<open>\<open>c * a\<close> for a scalar \<open>c\<close>.\<close>

definition np_scale :: "real \<Rightarrow> real list \<Rightarrow> real list" where
  "np_scale c xs = map (\<lambda>x. c * x) xs"

text \<open>\<open>a / c\<close> for a scalar \<open>c\<close>.\<close>

definition np_divide :: "real list \<Rightarrow> real \<Rightarrow> real list" where
  "np_divide xs c = map (\<lambda>x. x / c) xs"

text \<open>\<open>np.zeros_like(a)\<close>.\<close>

definition zeros_like :: "real list \<Rightarrow> real list" where
  "zeros_like xs = replicate (length xs) 0"

text \<open>The slices \<open>a[:-2]\<close>, \<open>a[2:]\<close> and \<open>a[1:-1]\<close>; each is empty on a short array.\<close>

definition slice_to_m2 :: "'a list \<Rightarrow> 'a list" where
  "slice_to_m2 xs = take (length xs - 2) xs"

definition slice_from_2 :: "'a list \<Rightarrow> 'a list" where
  "slice_from_2 xs = drop 2 xs"

definition slice_1_m1 :: "'a list \<Rightarrow> 'a list" where
  "slice_1_m1 xs = take (length xs - 2) (drop 1 xs)"

text \<open>
  The assignment \<open>a[1:-1] = rhs\<close>: the right-hand side has the length of the slice, or
  length one (it is broadcast, also into an empty slice); any other length raises
  \<open>ValueError\<close>.
\<close>

definition set_slice_1_m1 :: "real list \<Rightarrow> real list \<Rightarrow> real list result" where
  "set_slice_1_m1 a rhs =
     (let k = length a - 2 in
      if length rhs = k then Inr (take 1 a @ rhs @ drop (Suc k) a)
      else if length rhs = 1 then Inr (take 1 a @ replicate k (hd rhs) @ drop (Suc k) a)
      else Inl ValueError)"

text \<open>
  The in-place addition \<open>a += b\<close>: \<open>b\<close> is broadcast to the shape of \<open>a\<close>, which cannot
  change.
\<close>

definition np_iadd :: "real list \<Rightarrow> real list \<Rightarrow> real list result" where
  "np_iadd a b =
     (if length b = length a then Inr (map2 (+) a b)
      else if length b = 1 then Inr (map (\<lambda>x. x + hd b) a)
      else Inl ValueError)"

text \<open>
  \<open>np.roll(a, k)\<close> moves every entry \<open>k\<close> places to the right, cyclically, and the slice
  \<open>a[::2]\<close> keeps the entries at the even indices.
\<close>

definition np_roll :: "'a list \<Rightarrow> int \<Rightarrow> 'a list" where
  "np_roll xs k = rotate (nat ((- k) mod int (length xs))) xs"

fun evens :: "'a list \<Rightarrow> 'a list" where
  "evens [] = []"
| "evens [x] = [x]"
| "evens (x # y # xs) = x # evens xs"

subsection \<open>The smoother\<close>

text \<open>
  One pass of the loop of \<open>jacobi\<close>. The loop carries \<open>phi\<close> and \<open>phistar\<close>: \<open>phistar\<close>
  is a copy of the first \<open>phi\<close> whose interior is overwritten in every pass, and \<open>phi\<close> is
  rebound to a new array, so the caller's array is never written.
\<close>

definition jacobi_step :: "real list \<Rightarrow> real \<Rightarrow> real \<Rightarrow> real list \<times> real list \<Rightarrow> (real list \<times> real list) result" where
  "jacobi_step F h w s =
     (case s of (phi, phistar) \<Rightarrow>
        bindE (np_add (slice_to_m2 phi) (slice_from_2 phi)) (\<lambda>s1.
        bindE (np_add s1 (np_scale (h ^ 2) (slice_1_m1 F))) (\<lambda>s2.
        bindE (set_slice_1_m1 phistar (np_scale 0.5 s2)) (\<lambda>phistar'.
        bindE (np_add (np_scale (1 - w) phi) (np_scale w phistar')) (\<lambda>phi'.
        Inr (phi', phistar'))))))"

fun jacobi_loop :: "nat \<Rightarrow> real list \<Rightarrow> real \<Rightarrow> real \<Rightarrow> real list \<times> real list \<Rightarrow> (real list \<times> real list) result" where
  "jacobi_loop 0 F h w s = Inr s"
| "jacobi_loop (Suc k) F h w s = bindE (jacobi_step F h w s) (jacobi_loop k F h w)"

text \<open>
  \<open>jacobi(phi,F,h,Niter,w)\<close>. The count is a natural number: \<open>range\<close> of a negative
  count is empty, as \<open>range(0)\<close> is.
\<close>

definition jacobi :: "real list \<Rightarrow> real list \<Rightarrow> real \<Rightarrow> nat \<Rightarrow> real \<Rightarrow> real list result" where
  "jacobi phi F h Niter w = bindE (jacobi_loop Niter F h w (phi, phi)) (\<lambda>s. Inr (fst s))"

subsection \<open>The residual\<close>

definition residual :: "real list \<Rightarrow> real list \<Rightarrow> real \<Rightarrow> real list result" where
  "residual phi F h =
     bindE (np_sub (np_scale (- 1) (slice_to_m2 phi)) (slice_from_2 phi)) (\<lambda>d1.
     bindE (np_add d1 (np_scale 2 (slice_1_m1 phi))) (\<lambda>d2.
     bindE (set_slice_1_m1 (zeros_like phi) d2) (\<lambda>d2phi.
     np_sub (np_scale (h ^ 2) F) d2phi)))"

subsection \<open>Basic facts about the array operations\<close>

lemma bindE_Inr [simp]: "bindE (Inr x) f = f x"
  by (simp add: bindE_def)

lemma bindE_Inl [simp]: "bindE (Inl e) f = Inl e"
  by (simp add: bindE_def)

lemma np_binop_same: "length xs = length ys \<Longrightarrow> np_binop f xs ys = Inr (map2 f xs ys)"
  by (simp add: np_binop_def)

lemma np_add_same: "length xs = length ys \<Longrightarrow> np_add xs ys = Inr (map2 (+) xs ys)"
  by (simp add: np_add_def np_binop_same)

lemma np_sub_same: "length xs = length ys \<Longrightarrow> np_sub xs ys = Inr (map2 (-) xs ys)"
  by (simp add: np_sub_def np_binop_same)

lemma length_np_scale [simp]: "length (np_scale c xs) = length xs"
  by (simp add: np_scale_def)

lemma nth_np_scale [simp]: "i < length xs \<Longrightarrow> np_scale c xs ! i = c * xs ! i"
  by (simp add: np_scale_def)

lemma length_zeros_like [simp]: "length (zeros_like xs) = length xs"
  by (simp add: zeros_like_def)

lemma nth_zeros_like [simp]: "i < length xs \<Longrightarrow> zeros_like xs ! i = 0"
  by (simp add: zeros_like_def)

lemma length_slice_to_m2 [simp]: "length (slice_to_m2 xs) = length xs - 2"
  by (simp add: slice_to_m2_def)

lemma length_slice_from_2 [simp]: "length (slice_from_2 xs) = length xs - 2"
  by (simp add: slice_from_2_def)

lemma length_slice_1_m1 [simp]: "length (slice_1_m1 xs) = length xs - 2"
  by (simp add: slice_1_m1_def)

lemma nth_slice_to_m2 [simp]: "i < length xs - 2 \<Longrightarrow> slice_to_m2 xs ! i = xs ! i"
  by (simp add: slice_to_m2_def)

lemma nth_slice_from_2 [simp]: "i < length xs - 2 \<Longrightarrow> slice_from_2 xs ! i = xs ! (i + 2)"
  by (simp add: slice_from_2_def add.commute)

lemma nth_slice_1_m1 [simp]: "i < length xs - 2 \<Longrightarrow> slice_1_m1 xs ! i = xs ! (i + 1)"
  by (simp add: slice_1_m1_def)

lemma set_slice_1_m1_same:
  "length rhs = length a - 2 \<Longrightarrow>
   set_slice_1_m1 a rhs = Inr (take 1 a @ rhs @ drop (Suc (length a - 2)) a)"
  by (simp add: set_slice_1_m1_def)

text \<open>The array after a successful assignment to \<open>a[1:-1]\<close>.\<close>

definition inner_set :: "real list \<Rightarrow> real list \<Rightarrow> real list" where
  "inner_set a rhs = take 1 a @ rhs @ drop (Suc (length a - 2)) a"

lemma length_inner_set: "length rhs = length a - 2 \<Longrightarrow> length (inner_set a rhs) = length a"
  by (auto simp: inner_set_def)

lemma nth_inner_set:
  assumes "length rhs = length a - 2" "i < length a"
  shows "inner_set a rhs ! i = (if 0 < i \<and> i < length a - Suc 0 then rhs ! (i - Suc 0) else a ! i)"
proof (cases "length a < 2")
  case True
  with assms show ?thesis by (cases a) (auto simp: inner_set_def)
next
  case False
  show ?thesis
  proof (cases "i = 0")
    case True
    with False show ?thesis by (simp add: inner_set_def nth_append)
  next
    case i0: False
    show ?thesis
    proof (cases "i < length a - Suc 0")
      case True
      then have "i - Suc 0 < length a - 2" using i0 by arith
      with True i0 False assms show ?thesis by (simp add: inner_set_def nth_append min_def)
    next
      case False
      with assms have "i = Suc (length a - 2)" using \<open>\<not> length a < 2\<close> by arith
      with False i0 assms \<open>\<not> length a < 2\<close> show ?thesis
        by (simp add: inner_set_def nth_append min_def)
    qed
  qed
qed

subsection \<open>The smoother as the specification words it\<close>

text \<open>
  One sweep as section 4.3 of the specification describes it: at every interior point the
  trial value is half of the sum of the two neighbours and \<open>h\<^sup>2 F\<close>, the new value blends
  the old value and the trial value with weight \<open>w\<close>, and the two boundary points keep
  their values. \<open>smoother_spec\<close> repeats the sweep \<open>k\<close> times.
\<close>

definition sweep_spec :: "real list \<Rightarrow> real list \<Rightarrow> real \<Rightarrow> real \<Rightarrow> real list" where
  "sweep_spec phi F h w =
     map (\<lambda>j. if 0 < j \<and> j < length phi - 1
              then (1 - w) * (phi ! j) + w * (0.5 * (phi ! (j - 1) + phi ! (j + 1) + h ^ 2 * (F ! j)))
              else phi ! j) [0..<length phi]"

lemma length_sweep_spec [simp]: "length (sweep_spec phi F h w) = length phi"
  by (simp add: sweep_spec_def)

lemma sweep_spec_bdry:
  "sweep_spec phi F h w ! 0 = phi ! 0"
  "sweep_spec phi F h w ! (length phi - Suc 0) = phi ! (length phi - Suc 0)"
proof -
  show "sweep_spec phi F h w ! 0 = phi ! 0"
    by (cases "phi = []") (simp_all add: sweep_spec_def)
  show "sweep_spec phi F h w ! (length phi - Suc 0) = phi ! (length phi - Suc 0)"
    by (cases "phi = []") (simp_all add: sweep_spec_def)
qed

definition smoother_spec :: "real list \<Rightarrow> real list \<Rightarrow> real \<Rightarrow> nat \<Rightarrow> real \<Rightarrow> real list" where
  "smoother_spec phi F h k w = ((\<lambda>p. sweep_spec p F h w) ^^ k) phi"

lemma smoother_spec_Suc:
  "smoother_spec phi F h (Suc k) w = sweep_spec (smoother_spec phi F h k w) F h w"
  by (simp add: smoother_spec_def)

lemma smoother_spec_Suc2:
  "smoother_spec phi F h (Suc k) w = smoother_spec (sweep_spec phi F h w) F h k w"
  using funpow_swap1 [of "\<lambda>p. sweep_spec p F h w" k phi] by (simp add: smoother_spec_def)

lemma length_smoother_spec [simp]: "length (smoother_spec phi F h k w) = length phi"
  by (induction k) (simp_all add: smoother_spec_def)

lemma smoother_spec_bdry:
  "smoother_spec phi F h k w ! 0 = phi ! 0"
  "smoother_spec phi F h k w ! (length phi - Suc 0) = phi ! (length phi - Suc 0)"
proof -
  show "smoother_spec phi F h k w ! 0 = phi ! 0"
    by (induction k) (simp_all add: smoother_spec_def sweep_spec_bdry)
  show "smoother_spec phi F h k w ! (length phi - Suc 0) = phi ! (length phi - Suc 0)"
  proof (induction k)
    case 0
    show ?case by (simp add: smoother_spec_def)
  next
    case (Suc k)
    have "sweep_spec (smoother_spec phi F h k w) F h w ! (length (smoother_spec phi F h k w) - Suc 0)
        = smoother_spec phi F h k w ! (length (smoother_spec phi F h k w) - Suc 0)"
      by (rule sweep_spec_bdry)
    with Suc show ?case by (simp add: smoother_spec_Suc)
  qed
qed

subsection \<open>The loop of the smoother\<close>

lemma jacobi_step_eq:
  assumes "length F = length phi" "length phistar = length phi"
    and "phistar ! 0 = phi ! 0" "phistar ! (length phi - 1) = phi ! (length phi - 1)"
  shows "\<exists>ps. jacobi_step F h w (phi, phistar) = Inr (sweep_spec phi F h w, ps) \<and>
     length ps = length phi \<and> ps ! 0 = phi ! 0 \<and> ps ! (length phi - 1) = phi ! (length phi - 1)"
proof -
  let ?L = "length phi"
  define rhs where "rhs = np_scale 0.5
    (map2 (+) (map2 (+) (slice_to_m2 phi) (slice_from_2 phi)) (np_scale (h ^ 2) (slice_1_m1 F)))"
  define ps where "ps = inner_set phistar rhs"
  have l2: "length rhs = length phistar - 2"
    using assms by (simp add: rhs_def)
  have lps: "length ps = ?L"
    using length_inner_set [OF l2] assms by (simp add: ps_def)
  have nth_rhs: "rhs ! j = 0.5 * (phi ! j + phi ! (j + 2) + h ^ 2 * F ! (j + 1))" if "j < ?L - 2" for j
    using that assms by (simp add: rhs_def)
  have nth_ps: "ps ! i = (if 0 < i \<and> i < ?L - Suc 0 then rhs ! (i - Suc 0) else phistar ! i)"
    if "i < ?L" for i
    using nth_inner_set [OF l2, of i] that assms by (simp add: ps_def)
  have step: "jacobi_step F h w (phi, phistar) = Inr (map2 (+) (np_scale (1 - w) phi) (np_scale w ps), ps)"
    using assms lps l2
    by (simp add: jacobi_step_def np_add_same set_slice_1_m1_same inner_set_def ps_def rhs_def)
  have "map2 (+) (np_scale (1 - w) phi) (np_scale w ps) = sweep_spec phi F h w"
  proof (rule nth_equalityI)
    show "length (map2 (+) (np_scale (1 - w) phi) (np_scale w ps)) = length (sweep_spec phi F h w)"
      using lps by simp
  next
    fix i assume "i < length (map2 (+) (np_scale (1 - w) phi) (np_scale w ps))"
    then have i: "i < ?L" by simp
    show "map2 (+) (np_scale (1 - w) phi) (np_scale w ps) ! i = sweep_spec phi F h w ! i"
    proof (cases "0 < i \<and> i < ?L - 1")
      case True
      then have j: "i - Suc 0 < ?L - 2" by arith
      from True have e: "i - Suc 0 + 2 = i + 1" "i - Suc 0 + 1 = i" by arith+
      have "ps ! i = 0.5 * (phi ! (i - 1) + phi ! (i + 1) + h ^ 2 * F ! i)"
        using nth_ps [OF i] True nth_rhs [OF j] e by simp
      with True i lps show ?thesis
        by (simp add: sweep_spec_def)
    next
      case False
      then have "i = 0 \<or> i = ?L - 1" using i by arith
      then have "ps ! i = phi ! i" using nth_ps [OF i] False assms by auto
      with False i lps show ?thesis
        by (auto simp add: sweep_spec_def algebra_simps)
    qed
  qed
  moreover have "ps ! 0 = phi ! 0 \<and> ps ! (?L - 1) = phi ! (?L - 1)"
  proof (cases "?L = 0")
    case True
    with lps show ?thesis by simp
  next
    case False
    then show ?thesis using nth_ps [of 0] nth_ps [of "?L - 1"] assms by auto
  qed
  ultimately show ?thesis using step lps by auto
qed


lemma jacobi_loop_eq:
  assumes "length F = length phi" "length phistar = length phi"
    and "phistar ! 0 = phi ! 0" "phistar ! (length phi - 1) = phi ! (length phi - 1)"
  shows "\<exists>ps. jacobi_loop k F h w (phi, phistar) = Inr (smoother_spec phi F h k w, ps)"
  using assms
proof (induction k arbitrary: phi phistar)
  case 0
  show ?case by (simp add: smoother_spec_def)
next
  case (Suc k)
  from jacobi_step_eq [OF Suc.prems] obtain ps where
    st: "jacobi_step F h w (phi, phistar) = Inr (sweep_spec phi F h w, ps)"
    and ps: "length ps = length phi" "ps ! 0 = phi ! 0" "ps ! (length phi - 1) = phi ! (length phi - 1)"
    by blast
  have "\<exists>ps'. jacobi_loop k F h w (sweep_spec phi F h w, ps) = Inr (smoother_spec (sweep_spec phi F h w) F h k w, ps')"
    using Suc.prems ps sweep_spec_bdry [of phi F h w] by (intro Suc.IH) simp_all
  then show ?case
    using st by (simp add: smoother_spec_Suc2)
qed

lemma jacobi_eq:
  assumes "length F = length phi"
  shows "jacobi phi F h k w = Inr (smoother_spec phi F h k w) \<and>
         length (smoother_spec phi F h k w) = length phi \<and>
         smoother_spec phi F h k w ! 0 = phi ! 0 \<and>
         smoother_spec phi F h k w ! (length phi - 1) = phi ! (length phi - 1)"
proof -
  from jacobi_loop_eq [OF assms, of phi k h w] obtain ps where
    "jacobi_loop k F h w (phi, phi) = Inr (smoother_spec phi F h k w, ps)" by auto
  then show ?thesis using smoother_spec_bdry [of phi F h k w] by (simp add: jacobi_def)
qed

subsection \<open>The entries of the residual\<close>

lemma residual_eq:
  assumes "length F = length phi"
  shows "residual phi F h =
    Inr (map (\<lambda>j. if 0 < j \<and> j < length phi - 1
                  then h ^ 2 * F ! j - (- phi ! (j - 1) + 2 * phi ! j - phi ! (j + 1))
                  else h ^ 2 * F ! j) [0..<length phi])"
proof -
  define rhs where "rhs = map2 (+) (map2 (-) (np_scale (- 1) (slice_to_m2 phi)) (slice_from_2 phi))
     (np_scale 2 (slice_1_m1 phi))"
  define d2phi where "d2phi = inner_set (zeros_like phi) rhs"
  have l2: "length rhs = length (zeros_like phi) - 2"
    by (simp add: rhs_def)
  have ld: "length d2phi = length phi"
    using length_inner_set [OF l2] by (simp add: d2phi_def)
  have nth_rhs: "rhs ! j = - phi ! j - phi ! (j + 2) + 2 * phi ! (j + 1)" if "j < length phi - 2" for j
    using that by (simp add: rhs_def)
  have nth_d: "d2phi ! i = (if 0 < i \<and> i < length phi - Suc 0 then rhs ! (i - Suc 0) else 0)"
    if "i < length phi" for i
    using nth_inner_set [OF l2, of i] nth_zeros_like [OF that] that by (auto simp add: d2phi_def)
  have res: "residual phi F h = Inr (map2 (-) (np_scale (h ^ 2) F) d2phi)"
    using assms ld l2
    by (simp add: residual_def np_add_same np_sub_same set_slice_1_m1_same inner_set_def d2phi_def rhs_def)
  have "map2 (-) (np_scale (h ^ 2) F) d2phi = map (\<lambda>j. if 0 < j \<and> j < length phi - 1
                  then h ^ 2 * F ! j - (- phi ! (j - 1) + 2 * phi ! j - phi ! (j + 1))
                  else h ^ 2 * F ! j) [0..<length phi]"
  proof (rule nth_equalityI)
    show "length (map2 (-) (np_scale (h ^ 2) F) d2phi) = length (map (\<lambda>j. if 0 < j \<and> j < length phi - 1
                  then h ^ 2 * F ! j - (- phi ! (j - 1) + 2 * phi ! j - phi ! (j + 1))
                  else h ^ 2 * F ! j) [0..<length phi])"
      using ld assms by simp
  next
    fix i assume "i < length (map2 (-) (np_scale (h ^ 2) F) d2phi)"
    then have i: "i < length phi" using ld assms by simp
    show "map2 (-) (np_scale (h ^ 2) F) d2phi ! i = map (\<lambda>j. if 0 < j \<and> j < length phi - 1
                  then h ^ 2 * F ! j - (- phi ! (j - 1) + 2 * phi ! j - phi ! (j + 1))
                  else h ^ 2 * F ! j) [0..<length phi] ! i"
    proof (cases "0 < i \<and> i < length phi - 1")
      case True
      then have j: "i - Suc 0 < length phi - 2" by arith
      from True have e: "i - Suc 0 + 2 = i + 1" "i - Suc 0 + 1 = i" by arith+
      have "d2phi ! i = - phi ! (i - 1) - phi ! (i + 1) + 2 * phi ! i"
        using nth_d [OF i] True nth_rhs [OF j] e by simp
      with True i ld assms show ?thesis by simp
    next
      case False
      then have "d2phi ! i = 0" using nth_d [OF i] by auto
      with False i ld assms show ?thesis by auto
    qed
  qed
  with res show ?thesis by simp
qed


subsection \<open>Grid transfer\<close>

text \<open>
  \<open>restrict\<close>: the three rolled copies are sampled at the even indices and combined with
  the weights 1/4, 1/2, 1/4; then the two ends are overwritten with the ends of the fine
  array. Reading \<open>v1h[0]\<close> of an empty array raises \<open>IndexError\<close>.
\<close>

definition restrict :: "real list \<Rightarrow> real list result" where
  "restrict v1h =
     (let t1 = evens (np_roll v1h (- 1));
          t2 = evens (np_roll v1h 0);
          t3 = evens (np_roll v1h 1)
      in bindE (np_add t1 (np_scale 2 t2)) (\<lambda>s1.
         bindE (np_add s1 t3) (\<lambda>s2.
         let v2h = np_scale 0.25 s2 in
         if v1h = [] then Inl IndexError
         else Inr ((v2h[0 := v1h ! 0])[length v2h - 1 := last v1h]))))"

text \<open>
  \<open>prolong\<close>: \<open>np.empty\<close> of a negative size raises \<open>ValueError\<close>. The new array gets the
  coarse values at its even indices and the means of neighbours at its odd indices, which
  together are all of its entries, so no entry stays uninitialised; then its two ends are
  written once more.
\<close>

definition prolong :: "real list \<Rightarrow> real list result" where
  "prolong v2h =
     (if v2h = [] then Inl ValueError
      else bindE (np_add (butlast v2h) (tl v2h)) (\<lambda>s.
           let v1h = splice v2h (np_scale 0.5 s)
           in Inr ((v1h[0 := v2h ! 0])[length v1h - 1 := last v2h])))"

subsection \<open>Lengths of the results\<close>

lemma set_slice_1_m1_length: "set_slice_1_m1 a rhs = Inr a' \<Longrightarrow> length a' = length a"
  by (cases "length a < 2") (auto simp: set_slice_1_m1_def Let_def split: if_splits)

lemma np_binop_length:
  "np_binop f xs ys = Inr zs \<Longrightarrow> length xs = length ys \<Longrightarrow> length zs = length xs"
  by (auto simp: np_binop_def)

lemma jacobi_step_length:
  assumes "jacobi_step F h w (phi, phistar) = Inr (phi', phistar')" "length phistar = length phi"
  shows "length phi' = length phi \<and> length phistar' = length phi"
proof -
  from assms(1) obtain s2 where
    ps: "set_slice_1_m1 phistar (np_scale 0.5 s2) = Inr phistar'"
    and p: "np_add (np_scale (1 - w) phi) (np_scale w phistar') = Inr phi'"
    by (auto simp: jacobi_step_def bindE_def split: sum.splits)
  from set_slice_1_m1_length [OF ps] assms(2) have l: "length phistar' = length phi" by simp
  with p np_binop_length [of "(+)" "np_scale (1 - w) phi" "np_scale w phistar'" phi']
  show ?thesis by (simp add: np_add_def)
qed

lemma jacobi_loop_length:
  "jacobi_loop k F h w (phi, phistar) = Inr (phi', phistar') \<Longrightarrow> length phistar = length phi \<Longrightarrow>
   length phi' = length phi \<and> length phistar' = length phi"
proof (induction k arbitrary: phi phistar)
  case 0
  then show ?case by simp
next
  case (Suc k)
  from Suc.prems(1) obtain p1 ps1 where
    st: "jacobi_step F h w (phi, phistar) = Inr (p1, ps1)"
    and lp: "jacobi_loop k F h w (p1, ps1) = Inr (phi', phistar')"
    by (cases "jacobi_step F h w (phi, phistar)") auto
  from jacobi_step_length [OF st Suc.prems(2)] have "length p1 = length phi" "length ps1 = length phi"
    by simp_all
  with Suc.IH [OF lp] show ?case by simp
qed

lemma jacobi_length: "jacobi phi F h k w = Inr r \<Longrightarrow> length r = length phi"
proof -
  assume a: "jacobi phi F h k w = Inr r"
  then obtain ps where "jacobi_loop k F h w (phi, phi) = Inr (r, ps)"
    by (cases "jacobi_loop k F h w (phi, phi)") (auto simp: jacobi_def)
  from jacobi_loop_length [OF this] show ?thesis by simp
qed

lemma residual_length:
  assumes "residual phi F h = Inr r" "length phi \<noteq> 1"
  shows "length r = length phi"
proof -
  from assms(1) obtain d2 d2phi where
    d: "set_slice_1_m1 (zeros_like phi) d2 = Inr d2phi"
    and r: "np_sub (np_scale (h ^ 2) F) d2phi = Inr r"
    by (auto simp: residual_def bindE_def split: sum.splits)
  from set_slice_1_m1_length [OF d] have "length d2phi = length phi" by simp
  with r assms(2) show ?thesis
    by (auto simp: np_sub_def np_binop_def split: if_splits)
qed

lemma length_evens [simp]: "length (evens xs) = (length xs + 1) div 2"
  by (induction xs rule: evens.induct) simp_all

lemma length_np_roll [simp]: "length (np_roll xs k) = length xs"
  by (simp add: np_roll_def)

lemma restrict_length: "restrict v = Inr r \<Longrightarrow> length r = (length v + 1) div 2"
  by (auto simp: restrict_def Let_def np_add_same split: if_splits)

lemma prolong_length:
  assumes "prolong v = Inr r"
  shows "length r = 2 * length v - 1"
proof -
  have l: "length (butlast v) = length (tl v)" by simp
  from assms have "v \<noteq> []" by (auto simp: prolong_def)
  with assms show ?thesis
    unfolding prolong_def np_add_same [OF l] by (auto simp: Let_def)
qed

subsection \<open>The V-cycle\<close>

text \<open>
  \<open>vcycle(phi,F,h,Niter)\<close>. \<open>F2/h**2\<close> is \<open>np_divide\<close>; for \<open>h = 0\<close> numpy yields
  infinities and NaN there, which real numbers do not have, so the theorems about the
  V-cycle assume \<open>h \<noteq> 0\<close>. \<open>phi1 += prolong(v2)\<close> writes into \<open>phi1\<close>, which is a new
  array unless \<open>Niter\<close> is 0; the model gives the value that is returned. The recursion is
  on a strictly shorter array.
\<close>

function vcycle :: "real list \<Rightarrow> real list \<Rightarrow> real \<Rightarrow> nat \<Rightarrow> real list result" where
  "vcycle phi F h Niter =
     bindE (jacobi phi F h Niter (2 / 3)) (\<lambda>phi1.
     bindE (if length phi1 > 3
            then bindE (residual phi1 F h) (\<lambda>r.
                 bindE (restrict r) (\<lambda>F2.
                 bindE (vcycle (zeros_like F2) (np_divide F2 (h ^ 2)) (2 * h) Niter) (\<lambda>v2.
                 bindE (prolong v2) (\<lambda>p.
                 np_iadd phi1 p))))
            else Inr phi1) (\<lambda>phi1'.
     jacobi phi1' F h Niter (2 / 3)))"
  by pat_completeness auto
termination
proof (relation "measure (\<lambda>(phi, F, h, Niter). length phi)")
  show "wf (measure (\<lambda>(phi, F, h, Niter). length phi))" by simp
next
  fix phi F :: "real list" and h :: real and Niter :: nat and phi1 r F2
  assume j: "jacobi phi F h Niter (2 / 3) = Inr phi1" and l: "3 < length phi1"
    and r: "residual phi1 F h = Inr r" and f: "restrict r = Inr F2"
  from jacobi_length [OF j] have "length phi1 = length phi" .
  moreover from residual_length [OF r] l have "length r = length phi1" by simp
  moreover note restrict_length [OF f]
  ultimately show "((zeros_like F2, np_divide F2 (h ^ 2), 2 * h, Niter), phi, F, h, Niter)
      \<in> measure (\<lambda>(phi, F, h, Niter). length phi)"
    using l by simp
qed


declare vcycle.simps [simp del]

subsection \<open>Full multigrid and the driver\<close>

text \<open>The loop \<open>for iter in range(Niter): v1h = vcycle(v1h,F,h)\<close>; \<open>vcycle\<close> gets its default count 50.\<close>

fun vcycle_loop :: "nat \<Rightarrow> real list \<Rightarrow> real list \<Rightarrow> real \<Rightarrow> real list result" where
  "vcycle_loop 0 v1h F h = Inr v1h"
| "vcycle_loop (Suc k) v1h F h = bindE (vcycle v1h F h 50) (\<lambda>v. vcycle_loop k v F h)"

text \<open>
  \<open>fmg_vcycle(F,h,bndry,Niter)\<close>. The recursive call passes no count, so the coarse
  levels run with the default 5. Writing \<open>v1h[0]\<close> of an empty array raises
  \<open>IndexError\<close>.
\<close>

function fmg_vcycle :: "real list \<Rightarrow> real \<Rightarrow> real \<times> real \<Rightarrow> nat \<Rightarrow> real list result" where
  "fmg_vcycle F h bndry Niter =
     bindE (if length F > 3
            then bindE (restrict F) (\<lambda>f2h.
                 bindE (fmg_vcycle f2h (2 * h) bndry 5) (\<lambda>v2h.
                 prolong v2h))
            else (let v1h = zeros_like F in
                  if v1h = [] then Inl IndexError
                  else Inr ((v1h[0 := fst bndry])[length v1h - 1 := snd bndry]))) (\<lambda>v1h.
     vcycle_loop Niter v1h F h)"
  by pat_completeness auto
termination
proof (relation "measure (\<lambda>(F, h, bndry, Niter). length F)")
  show "wf (measure (\<lambda>(F, h, bndry, Niter). length F))" by simp
next
  fix F :: "real list" and h :: real and bndry :: "real \<times> real" and Niter :: nat and f2h
  assume l: "3 < length F" and f: "restrict F = Inr f2h"
  from restrict_length [OF f] l
  show "((f2h, 2 * h, bndry, 5), F, h, bndry, Niter) \<in> measure (\<lambda>(F, h, bndry, Niter). length F)"
    by simp
qed

declare fmg_vcycle.simps [simp del]

text \<open>
  \<open>solve(bndry,n,Niter)\<close> prints one row per grid point; the model returns the rows: the
  index, the approximation, the exact value and the percentage. \<open>np.linspace\<close> and
  \<open>np.zeros\<close> raise \<open>ValueError\<close> on a negative size, \<open>1.0/n\<close> raises
  \<open>ZeroDivisionError\<close> for \<open>n = 0\<close>, and the argument \<open>Niter\<close> is never used. The
  percentage divides by \<open>exact[i] + 1e-10\<close>; where that is zero numpy prints an infinity or
  NaN, and the model has the value 0 of a division by zero.
\<close>

definition linspace01 :: "nat \<Rightarrow> real list" where
  "linspace01 num = map (\<lambda>i. real i / real (num - 1)) [0..<num]"

definition solve :: "real \<times> real \<Rightarrow> int \<Rightarrow> nat \<Rightarrow> (nat \<times> real \<times> real \<times> real) list result" where
  "solve bndry n Niter =
     (if n + 1 < 0 then Inl ValueError
      else let xx = linspace01 (nat (n + 1));
               F = replicate (nat (n + 1)) 0
           in if n = 0 then Inl ZeroDivisionError
              else bindE (fmg_vcycle F (1 / real_of_int n) bndry 5) (\<lambda>phi.
                   let exact = map (\<lambda>x. fst bndry + (snd bndry - fst bndry) * x) xx
                   in if length phi < nat (n + 1) then Inl IndexError
                      else Inr (map (\<lambda>i. (i, phi ! i, exact ! i,
                                   100 * (phi ! i - exact ! i) / (exact ! i + 1 / 10 ^ 10)))
                                 [0..<nat (n + 1)])))"

subsection \<open>Entries of the grid transfers\<close>

lemma nth_evens: "i < length (evens xs) \<Longrightarrow> evens xs ! i = xs ! (2 * i)"
proof (induction xs arbitrary: i rule: evens.induct)
  case 1
  then show ?case by simp
next
  case (2 x)
  then show ?case by simp
next
  case (3 x y xs)
  then show ?case by (cases i) simp_all
qed

lemma np_roll_0 [simp]: "np_roll xs 0 = xs"
  by (simp add: np_roll_def)

lemma nth_np_roll_m1:
  assumes "Suc i < length xs"
  shows "np_roll xs (- 1) ! i = xs ! Suc i"
proof -
  from assms have "nat (1 mod int (length xs)) = 1" by simp
  then have "np_roll xs (- 1) = rotate 1 xs" by (simp add: np_roll_def)
  with assms show ?thesis by (simp add: nth_rotate1)
qed

lemma nth_np_roll_1:
  assumes "0 < i" "i < length xs"
  shows "np_roll xs 1 ! i = xs ! (i - 1)"
proof -
  from assms have "0 < int (length xs)" by auto
  then have "(- 1) mod int (length xs) = int (length xs) - 1"
    by (rule zmod_minus1)
  then have "np_roll xs 1 = rotate (length xs - 1) xs"
    using assms by (simp add: np_roll_def nat_diff_distrib)
  moreover have "(length xs - 1 + i) mod length xs = i - 1"
  proof -
    have "length xs - 1 + i = (i - 1) + 1 * length xs" using assms by simp
    then have "(length xs - 1 + i) mod length xs = (i - 1) mod length xs"
      by (metis mod_mult_self1)
    then show ?thesis using assms by simp
  qed
  ultimately show ?thesis using assms by (simp add: nth_rotate)
qed

text \<open>The entries of the two transfers, index by index.\<close>

definition restrict_entries :: "real list \<Rightarrow> real list" where
  "restrict_entries v =
     map (\<lambda>j. if j = (length v + 1) div 2 - 1 then last v
              else if j = 0 then v ! 0
              else 0.25 * (v ! (2 * j - 1) + 2 * v ! (2 * j) + v ! (2 * j + 1)))
         [0..<(length v + 1) div 2]"

lemma restrict_eq:
  assumes "v \<noteq> []"
  shows "restrict v = Inr (restrict_entries v)"
proof -
  let ?m = "(length v + 1) div 2"
  define s where "s = np_scale 0.25 (map2 (+) (map2 (+) (evens (np_roll v (- 1))) (np_scale 2 (evens (np_roll v 0))))
     (evens (np_roll v 1)))"
  have ls: "length s = ?m" by (simp add: s_def)
  have m0: "0 < ?m" using assms by (cases v) simp_all
  have r: "restrict v = Inr ((s[0 := v ! 0])[length s - 1 := last v])"
    using assms by (simp add: restrict_def Let_def np_add_same s_def)
  have nth_s: "s ! j = 0.25 * (v ! (2 * j - 1) + 2 * v ! (2 * j) + v ! (2 * j + 1))"
    if "0 < j" "j < ?m - 1" for j
  proof -
    from that have a: "Suc (2 * j) < length v" "0 < 2 * j" "2 * j < length v" by arith+
    from that have j: "j < ?m" by arith
    have "evens (np_roll v (- 1)) ! j = v ! (2 * j + 1)"
      using nth_evens [of j "np_roll v (- 1)"] j nth_np_roll_m1 [OF a(1)] by simp
    moreover have "evens (np_roll v 1) ! j = v ! (2 * j - 1)"
      using nth_evens [of j "np_roll v 1"] j nth_np_roll_1 [OF a(2,3)] by simp
    moreover have "evens (np_roll v 0) ! j = v ! (2 * j)"
      using nth_evens [of j v] j by simp
    ultimately show ?thesis using j by (simp add: s_def)
  qed
  have "(s[0 := v ! 0])[length s - 1 := last v] = restrict_entries v"
  proof (rule nth_equalityI)
    show "length ((s[0 := v ! 0])[length s - 1 := last v]) = length (restrict_entries v)"
      by (simp add: ls restrict_entries_def)
  next
    fix j assume "j < length ((s[0 := v ! 0])[length s - 1 := last v])"
    then have j: "j < ?m" by (simp add: ls)
    show "(s[0 := v ! 0])[length s - 1 := last v] ! j = restrict_entries v ! j"
    proof (cases "j = ?m - 1")
      case True
      with j ls show ?thesis by (simp add: restrict_entries_def)
    next
      case False
      show ?thesis
      proof (cases "j = 0")
        case True
        with False j ls show ?thesis by (simp add: restrict_entries_def)
      next
        case j0: False
        with False j have "0 < j" "j < ?m - 1" by arith+
        from nth_s [OF this] False j0 j ls show ?thesis
          by (simp add: restrict_entries_def)
      qed
    qed
  qed
  with r show ?thesis by simp
qed


lemma nth_splice_even:
  "j < length xs \<Longrightarrow> j \<le> length ys \<Longrightarrow> splice xs ys ! (2 * j) = xs ! j"
proof (induction j arbitrary: xs ys)
  case 0
  then show ?case by (cases xs) simp_all
next
  case (Suc j)
  then obtain x xs' y ys' where "xs = x # xs'" "ys = y # ys'"
    by (cases xs; cases ys) auto
  with Suc show ?case by simp
qed

lemma nth_splice_odd:
  "j < length ys \<Longrightarrow> j < length xs \<Longrightarrow> splice xs ys ! (2 * j + 1) = ys ! j"
proof (induction j arbitrary: xs ys)
  case 0
  then show ?case by (cases xs; cases ys) simp_all
next
  case (Suc j)
  then obtain x xs' y ys' where "xs = x # xs'" "ys = y # ys'"
    by (cases xs; cases ys) auto
  with Suc show ?case by simp
qed

definition prolong_entries :: "real list \<Rightarrow> real list" where
  "prolong_entries v =
     map (\<lambda>i. if even i then v ! (i div 2) else 0.5 * (v ! (i div 2) + v ! (i div 2 + 1)))
         [0..<2 * length v - 1]"

lemma prolong_eq:
  assumes "v \<noteq> []"
  shows "prolong v = Inr (prolong_entries v)"
proof -
  define od where "od = np_scale 0.5 (map2 (+) (butlast v) (tl v))"
  define s where "s = splice v od"
  have lo: "length od = length v - 1" by (simp add: od_def)
  have ls: "length s = 2 * length v - 1" using assms by (cases v) (simp_all add: s_def lo)
  have l: "length (butlast v) = length (tl v)" by simp
  have p: "prolong v = Inr ((s[0 := v ! 0])[length s - 1 := last v])"
    using assms unfolding prolong_def np_add_same [OF l] by (simp add: Let_def s_def od_def)
  have nth_od: "od ! j = 0.5 * (v ! j + v ! (j + 1))" if "j < length v - 1" for j
    using that by (simp add: od_def nth_butlast nth_tl)
  have ev: "s ! (2 * j) = v ! j" if "j < length v" for j
    using nth_splice_even [of j v od] that lo by (simp add: s_def)
  have odd_s: "s ! (2 * j + 1) = 0.5 * (v ! j + v ! (j + 1))" if "j < length v - 1" for j
    using nth_splice_odd [of j od v] that lo nth_od [OF that] by (simp add: s_def)
  have s0: "s ! 0 = v ! 0" using ev [of 0] assms by simp
  have sl: "s ! (length s - 1) = last v"
  proof -
    have "length s - 1 = 2 * (length v - 1)" using ls by simp
    with ev [of "length v - 1"] assms show ?thesis by (simp add: last_conv_nth)
  qed
  have "(s[0 := v ! 0])[length s - 1 := last v] = s"
    using s0 sl by (metis list_update_id)
  moreover have "s = prolong_entries v"
  proof (rule nth_equalityI)
    show "length s = length (prolong_entries v)" by (simp add: ls prolong_entries_def)
  next
    fix i assume "i < length s"
    then have i: "i < 2 * length v - 1" by (simp add: ls)
    show "s ! i = prolong_entries v ! i"
    proof (cases "even i")
      case True
      then obtain j where j: "i = 2 * j" by (auto elim: evenE)
      with i have "j < length v" by arith
      from ev [OF this] i j show ?thesis by (simp add: prolong_entries_def)
    next
      case False
      then obtain j where j: "i = 2 * j + 1" by (auto elim: oddE)
      with i have "j < length v - 1" by arith
      from odd_s [OF this] i j show ?thesis by (simp add: prolong_entries_def)
    qed
  qed
  ultimately show ?thesis using p by simp
qed


lemma length_restrict_entries [simp]: "length (restrict_entries v) = (length v + 1) div 2"
  by (simp add: restrict_entries_def)

lemma length_prolong_entries [simp]: "length (prolong_entries v) = 2 * length v - 1"
  by (simp add: prolong_entries_def)

lemma nth_restrict_entries:
  "j < (length v + 1) div 2 \<Longrightarrow>
   restrict_entries v ! j =
     (if j = (length v + 1) div 2 - 1 then last v
      else if j = 0 then v ! 0
      else 0.25 * (v ! (2 * j - 1) + 2 * v ! (2 * j) + v ! (2 * j + 1)))"
  by (simp add: restrict_entries_def)

lemma nth_prolong_entries:
  "i < 2 * length v - 1 \<Longrightarrow>
   prolong_entries v ! i =
     (if even i then v ! (i div 2) else 0.5 * (v ! (i div 2) + v ! (i div 2 + 1)))"
  by (simp add: prolong_entries_def)

lemma restrict_entries_replicate:
  "restrict_entries (replicate n c) = replicate ((n + 1) div 2) c"
proof (rule nth_equalityI)
  show "length (restrict_entries (replicate n c)) = length (replicate ((n + 1) div 2) c)" by simp
next
  fix j assume "j < length (restrict_entries (replicate n c))"
  then have j: "j < (n + 1) div 2" by simp
  then have a: "2 * j - 1 < n" "2 * j < n" "0 < n" by arith+
  have b: "2 * j + 1 < n" if "j \<noteq> (n + 1) div 2 - 1" using that j by arith
  have "restrict_entries (replicate n c) ! j = c"
    using nth_restrict_entries [of j "replicate n c"] j a b
    by auto
  with j show "restrict_entries (replicate n c) ! j = replicate ((n + 1) div 2) c ! j" by simp
qed

lemma prolong_entries_replicate:
  "prolong_entries (replicate n c) = replicate (2 * n - 1) c"
proof (rule nth_equalityI)
  show "length (prolong_entries (replicate n c)) = length (replicate (2 * n - 1) c)" by simp
next
  fix i assume "i < length (prolong_entries (replicate n c))"
  then have i: "i < 2 * n - 1" by simp
  then have a: "i div 2 < n" by arith
  have b: "i div 2 + 1 < n" if "odd i" using that i by (auto elim!: oddE)
  have "prolong_entries (replicate n c) ! i = c"
    using nth_prolong_entries [of i "replicate n c"] i a b by auto
  with i show "prolong_entries (replicate n c) ! i = replicate (2 * n - 1) c ! i" by simp
qed

text \<open>
  Prolongation followed by restriction, as the claim words it: the two ends are kept and
  an interior entry becomes \<open>v\<^sub>j\<^sub>-\<^sub>1 / 8 + 3 v\<^sub>j / 4 + v\<^sub>j\<^sub>+\<^sub>1 / 8\<close>.
\<close>

definition prolong_restrict_entries :: "real list \<Rightarrow> real list" where
  "prolong_restrict_entries v =
     map (\<lambda>j. if j = 0 \<or> j = length v - 1 then v ! j
              else v ! (j - 1) / 8 + 3 * v ! j / 4 + v ! (j + 1) / 8) [0..<length v]"

lemma nth_prolong_restrict_entries:
  "j < length v \<Longrightarrow>
   prolong_restrict_entries v ! j =
     (if j = 0 \<or> j = length v - 1 then v ! j
      else v ! (j - 1) / 8 + 3 * v ! j / 4 + v ! (j + 1) / 8)"
  by (simp add: prolong_restrict_entries_def)

lemma restrict_prolong_entries:
  assumes "v \<noteq> []"
  shows "restrict_entries (prolong_entries v) = prolong_restrict_entries v"
proof (rule nth_equalityI)
  from assms have "0 < length v" by simp
  then have "(2 * length v - 1 + 1) div 2 = length v" by arith
  then show "length (restrict_entries (prolong_entries v)) = length (prolong_restrict_entries v)"
    by (simp add: prolong_restrict_entries_def)
next
  fix j assume jj: "j < length (restrict_entries (prolong_entries v))"
  from assms have l: "0 < length v" by simp
  let ?p = "prolong_entries v"
  have lp: "length ?p = 2 * length v - 1" by simp
  have m: "(length ?p + 1) div 2 = length v" unfolding lp using l by arith
  from jj m have j: "j < length v" by simp
  have pe: "?p ! (2 * i) = v ! i" if "i < length v" for i
  proof -
    from that have "2 * i < 2 * length v - 1" by arith
    from nth_prolong_entries [OF this] show ?thesis by simp
  qed
  have po: "?p ! (2 * i + 1) = 0.5 * (v ! i + v ! (i + 1))" if "i < length v - 1" for i
  proof -
    from that have "2 * i + 1 < 2 * length v - 1" by arith
    from nth_prolong_entries [OF this] show ?thesis by simp
  qed
  have r: "restrict_entries ?p ! j =
     (if j = length v - 1 then last ?p
      else if j = 0 then ?p ! 0
      else 0.25 * (?p ! (2 * j - 1) + 2 * ?p ! (2 * j) + ?p ! (2 * j + 1)))"
    using nth_restrict_entries [of j ?p] j unfolding m by simp
  have "length ?p \<noteq> 0" unfolding lp using l by arith
  then have pne: "?p \<noteq> []" by (metis list.size(3))
  show "restrict_entries ?p ! j = prolong_restrict_entries v ! j"
  proof (cases "j = length v - 1")
    case True
    have "length ?p - 1 = 2 * (length v - 1)" unfolding lp using l by arith
    then have "last ?p = ?p ! (2 * (length v - 1))"
      using pne by (simp add: last_conv_nth del: length_prolong_entries)
    also have "\<dots> = v ! (length v - 1)" using pe [of "length v - 1"] l by simp
    finally show ?thesis using True r j by (simp add: nth_prolong_restrict_entries)
  next
    case False
    show ?thesis
    proof (cases "j = 0")
      case True
      with False pe [of 0] l j r show ?thesis
        by (simp add: nth_prolong_restrict_entries)
    next
      case j0: False
      then have e: "2 * j - 1 = 2 * (j - 1) + 1" by arith
      from False j0 j have "j - 1 < length v - 1" "j < length v - 1" by arith+
      from po [OF this(1)] po [OF this(2)] pe [OF j] j0 False j r show ?thesis
        unfolding e by (simp add: nth_prolong_restrict_entries)
    qed
  qed
qed

lemma prolong_restrict_general:
  assumes "v \<noteq> []"
  shows "bindE (prolong v) restrict = Inr (prolong_restrict_entries v)"
proof -
  from assms have "length (prolong_entries v) \<noteq> 0"
    by (cases v) simp_all
  then have "prolong_entries v \<noteq> []" by (metis list.size(3))
  with assms show ?thesis
    by (simp add: prolong_eq restrict_eq restrict_prolong_entries)
qed

text \<open>The affine field \<open>v\<^sub>j = p + q j\<close> on the indices \<open>0..m\<close>.\<close>

definition affine_field :: "real \<Rightarrow> real \<Rightarrow> nat \<Rightarrow> real list" where
  "affine_field p q m = map (\<lambda>j. p + q * real j) [0..<Suc m]"

lemma length_affine_field [simp]: "length (affine_field p q m) = Suc m"
  by (simp add: affine_field_def)

lemma nth_affine_field: "j \<le> m \<Longrightarrow> affine_field p q m ! j = p + q * real j"
  unfolding affine_field_def by (simp del: upt_Suc)

lemma prolong_restrict_affine:
  "prolong_restrict_entries (affine_field p q m) = affine_field p q m"
proof (rule nth_equalityI)
  show "length (prolong_restrict_entries (affine_field p q m)) = length (affine_field p q m)"
    by (simp add: prolong_restrict_entries_def)
next
  fix j assume "j < length (prolong_restrict_entries (affine_field p q m))"
  then have j: "j < Suc m" by (simp add: prolong_restrict_entries_def)
  then have n: "prolong_restrict_entries (affine_field p q m) ! j =
     (if j = 0 \<or> j = m then affine_field p q m ! j
      else affine_field p q m ! (j - 1) / 8 + 3 * affine_field p q m ! j / 4 + affine_field p q m ! (j + 1) / 8)"
    using nth_prolong_restrict_entries [of j "affine_field p q m"] by simp
  show "prolong_restrict_entries (affine_field p q m) ! j = affine_field p q m ! j"
  proof (cases "j = 0 \<or> j = m")
    case True
    with n show ?thesis by simp
  next
    case False
    with j have a: "j - 1 \<le> m" "j + 1 \<le> m" "j \<le> m" "0 < j" by arith+
    then have r: "real (j - 1) = real j - 1" by simp
    have "affine_field p q m ! (j - 1) = p + q * (real j - 1)"
      using nth_affine_field [OF a(1), of p q] r by simp
    moreover have "affine_field p q m ! (j + 1) = p + q * (real j + 1)"
      using nth_affine_field [OF a(2), of p q] by (simp add: add.commute)
    moreover have "affine_field p q m ! j = p + q * real j"
      using nth_affine_field [OF a(3)] .
    moreover have "prolong_restrict_entries (affine_field p q m) ! j =
      affine_field p q m ! (j - 1) / 8 + 3 * affine_field p q m ! j / 4 + affine_field p q m ! (j + 1) / 8"
      using False n by simp
    ultimately have "prolong_restrict_entries (affine_field p q m) ! j =
      (p + q * (real j - 1)) / 8 + 3 * (p + q * real j) / 4 + (p + q * (real j + 1)) / 8"
      by simp
    also have "\<dots> = p + q * real j" by (simp add: field_simps)
    finally show ?thesis using \<open>affine_field p q m ! j = p + q * real j\<close> by simp
  qed
qed


lemma fixed_point_affine:
  assumes "prolong_restrict_entries v = v" "v \<noteq> []"
  shows "v = affine_field (v ! 0) (v ! 1 - v ! 0) (length v - 1)"
proof -
  have step: "v ! (j + 1) = 2 * v ! j - v ! (j - 1)" if "0 < j" "j < length v - 1" for j
  proof -
    from that have "j < length v" "\<not> (j = 0 \<or> j = length v - 1)" by arith+
    with nth_prolong_restrict_entries [of j v] assms(1)
    have "v ! j = v ! (j - 1) / 8 + 3 * v ! j / 4 + v ! (j + 1) / 8" by simp
    then show ?thesis by (simp add: field_simps)
  qed
  have main: "j < length v \<longrightarrow> v ! j = v ! 0 + (v ! 1 - v ! 0) * real j" for j
  proof (induction j rule: less_induct)
    case (less j)
    show ?case
    proof (cases "j < 2")
      case True
      then have "j = 0 \<or> j = 1" by arith
      then show ?thesis by auto
    next
      case False
      then obtain i where i: "j = i + 2" by (metis add.commute le_Suc_ex not_less)
      show ?thesis
      proof
        assume jl: "j < length v"
        with i have a: "0 < i + 1" "i + 1 < length v - 1" "i < length v" "i + 1 < length v" by arith+
        from less.IH [of i] i a have p0: "v ! i = v ! 0 + (v ! 1 - v ! 0) * real i" by simp
        from less.IH [of "i + 1"] i a have p1: "v ! (i + 1) = v ! 0 + (v ! 1 - v ! 0) * real (i + 1)" by simp
        from step [OF a(1,2)] have "v ! (i + 2) = 2 * v ! (i + 1) - v ! i" by (simp add: add.commute)
        with p0 p1 have "v ! (i + 2) = v ! 0 + (v ! 1 - v ! 0) * real (i + 2)"
          by (simp add: algebra_simps)
        with i show "v ! j = v ! 0 + (v ! 1 - v ! 0) * real j" by simp
      qed
    qed
  qed
  show ?thesis
  proof (rule nth_equalityI)
    show "length v = length (affine_field (v ! 0) (v ! 1 - v ! 0) (length v - 1))"
      using assms(2) by simp
  next
    fix j assume j: "j < length v"
    then have "j \<le> length v - 1" by arith
    from nth_affine_field [OF this] main [of j] j
    show "v ! j = affine_field (v ! 0) (v ! 1 - v ! 0) (length v - 1) ! j" by simp
  qed
qed

subsection \<open>The V-cycle and full multigrid on a grid of \<open>2\<^sup>k + 1\<close> points\<close>

lemma two_le_pow2: "0 < k \<Longrightarrow> 2 \<le> (2::nat) ^ k"
  using one_le_power [of "2::nat" "k - 1"] by (cases k) simp_all

lemma length_np_divide [simp]: "length (np_divide xs c) = length xs"
  by (simp add: np_divide_def)

lemma np_iadd_same: "length b = length a \<Longrightarrow> np_iadd a b = Inr (map2 (+) a b)"
  by (simp add: np_iadd_def)

lemma jacobi_grid:
  assumes "length F = length phi"
  shows "\<exists>r. jacobi phi F h N w = Inr r \<and> length r = length phi \<and>
     r ! 0 = phi ! 0 \<and> r ! (length phi - 1) = phi ! (length phi - 1)"
  using jacobi_eq [OF assms] by blast

lemma residual_grid:
  assumes "length F = length phi"
  shows "\<exists>r. residual phi F h = Inr r \<and> length r = length phi"
  using residual_eq [OF assms] by simp

lemma restrict_grid:
  assumes "length v = 2 ^ Suc k + 1"
  shows "\<exists>r. restrict v = Inr r \<and> length r = 2 ^ k + 1"
proof -
  from assms have "v \<noteq> []" by auto
  from restrict_eq [OF this] assms show ?thesis by simp
qed

lemma prolong_grid:
  assumes "length v = 2 ^ k + 1"
  shows "\<exists>r. prolong v = Inr r \<and> length r = 2 ^ Suc k + 1 \<and> r ! 0 = v ! 0 \<and> r ! (2 ^ Suc k) = v ! (2 ^ k)"
proof -
  from assms have ne: "v \<noteq> []" by auto
  have "prolong_entries v ! 0 = v ! 0"
    using nth_prolong_entries [of 0 v] assms by simp
  moreover have "prolong_entries v ! (2 ^ Suc k) = v ! (2 ^ k)"
    using nth_prolong_entries [of "2 ^ Suc k" v] assms by simp
  ultimately show ?thesis using prolong_eq [OF ne] assms by simp
qed

lemma vcycle_small:
  assumes "length F = length phi" "length phi \<le> 3"
  shows "\<exists>r. vcycle phi F h N = Inr r \<and> length r = length phi \<and>
     r ! 0 = phi ! 0 \<and> r ! (length phi - 1) = phi ! (length phi - 1)"
proof -
  from jacobi_grid [OF assms(1), of h N "2 / 3"] obtain phi1 where
    p1: "jacobi phi F h N (2 / 3) = Inr phi1" "length phi1 = length phi"
      "phi1 ! 0 = phi ! 0" "phi1 ! (length phi - 1) = phi ! (length phi - 1)" by blast
  from p1(2) assms have "length F = length phi1" by simp
  from jacobi_grid [OF this, of h N "2 / 3"] obtain phi2 where
    p2: "jacobi phi1 F h N (2 / 3) = Inr phi2" "length phi2 = length phi1"
      "phi2 ! 0 = phi1 ! 0" "phi2 ! (length phi1 - 1) = phi1 ! (length phi1 - 1)" by blast
  have "vcycle phi F h N = Inr phi2"
    using p1 p2 assms by (simp add: vcycle.simps [of phi F h N])
  with p1 p2 show ?thesis by simp
qed

lemma vcycle_grid:
  assumes "length phi = 2 ^ k + 1" "length F = 2 ^ k + 1"
  shows "\<exists>r. vcycle phi F h N = Inr r \<and> length r = 2 ^ k + 1 \<and>
     r ! 0 = phi ! 0 \<and> r ! (2 ^ k) = phi ! (2 ^ k)"
  using assms
proof (induction k arbitrary: phi F h)
  case 0
  then have "length F = length phi" "length phi \<le> 3" by simp_all
  from vcycle_small [OF this, of h N] 0 show ?case by simp
next
  case (Suc k)
  show ?case
  proof (cases "k = 0")
    case True
    with Suc.prems have "length F = length phi" "length phi \<le> 3" by simp_all
    from vcycle_small [OF this, of h N] Suc.prems show ?thesis by simp
  next
    case False
    then have big: "3 < (2::nat) ^ Suc k + 1"
      using two_le_pow2 [of k] by simp
    from Suc.prems have lf: "length F = length phi" by simp
    from jacobi_grid [OF lf, of h N "2 / 3"] obtain phi1 where
      p1: "jacobi phi F h N (2 / 3) = Inr phi1" "length phi1 = length phi"
        "phi1 ! 0 = phi ! 0" "phi1 ! (length phi - 1) = phi ! (length phi - 1)" by blast
    from p1(2) lf have lf1: "length F = length phi1" by simp
    from residual_grid [OF lf1, of h] obtain r where
      r: "residual phi1 F h = Inr r" "length r = length phi1" by blast
    from r(2) p1(2) Suc.prems have "length r = 2 ^ Suc k + 1" by simp
    from restrict_grid [OF this] obtain F2 where
      f2: "restrict r = Inr F2" "length F2 = 2 ^ k + 1" by blast
    have "\<exists>v2. vcycle (zeros_like F2) (np_divide F2 (h ^ 2)) (2 * h) N = Inr v2 \<and> length v2 = 2 ^ k + 1 \<and>
       v2 ! 0 = zeros_like F2 ! 0 \<and> v2 ! (2 ^ k) = zeros_like F2 ! (2 ^ k)"
      using f2 by (intro Suc.IH) simp_all
    then obtain v2 where
      v2: "vcycle (zeros_like F2) (np_divide F2 (h ^ 2)) (2 * h) N = Inr v2" "length v2 = 2 ^ k + 1"
        "v2 ! 0 = 0" "v2 ! (2 ^ k) = 0"
      using f2(2) by auto
    from prolong_grid [OF v2(2)] obtain p where
      p: "prolong v2 = Inr p" "length p = 2 ^ Suc k + 1" "p ! 0 = 0" "p ! (2 ^ Suc k) = 0"
      using v2 by auto
    define phi1' where "phi1' = map2 (+) phi1 p"
    have lp: "length p = length phi1" using p p1 Suc.prems by simp
    have c: "np_iadd phi1 p = Inr phi1'"
      using np_iadd_same [OF lp] by (simp add: phi1'_def)
    have l1': "length phi1' = length phi" using lp p1 by (simp add: phi1'_def)
    have b1': "phi1' ! 0 = phi ! 0" "phi1' ! (2 ^ Suc k) = phi ! (2 ^ Suc k)"
      using lp p p1 Suc.prems by (simp_all add: phi1'_def)
    from l1' lf have "length F = length phi1'" by simp
    from jacobi_grid [OF this, of h N "2 / 3"] obtain phi2 where
      p2: "jacobi phi1' F h N (2 / 3) = Inr phi2" "length phi2 = length phi1'"
        "phi2 ! 0 = phi1' ! 0" "phi2 ! (length phi1' - 1) = phi1' ! (length phi1' - 1)" by blast
    have "vcycle phi F h N = Inr phi2"
      using p1 r f2 v2 p c p2 big Suc.prems by (simp add: vcycle.simps [of phi F h N])
    with p2 l1' b1' Suc.prems show ?thesis by simp
  qed
qed


lemma vcycle_loop_grid:
  assumes "length v = 2 ^ k + 1" "length F = 2 ^ k + 1"
  shows "\<exists>r. vcycle_loop m v F h = Inr r \<and> length r = 2 ^ k + 1 \<and>
     r ! 0 = v ! 0 \<and> r ! (2 ^ k) = v ! (2 ^ k)"
  using assms
proof (induction m arbitrary: v)
  case 0
  then show ?case by simp
next
  case (Suc m)
  from vcycle_grid [OF Suc.prems, of h 50] obtain v' where
    v': "vcycle v F h 50 = Inr v'" "length v' = 2 ^ k + 1" "v' ! 0 = v ! 0" "v' ! (2 ^ k) = v ! (2 ^ k)"
    by blast
  from Suc.IH [OF v'(2) Suc.prems(2)] v' show ?case by simp
qed

lemma fmg_base:
  assumes "length F \<le> 3" "F \<noteq> []"
  shows "fmg_vcycle F h bndry N =
     vcycle_loop N (((zeros_like F)[0 := fst bndry])[length F - 1 := snd bndry]) F h"
proof -
  from assms(2) have "zeros_like F \<noteq> []" by (simp add: zeros_like_def)
  with assms(1) show ?thesis
    by (simp add: fmg_vcycle.simps [of F h bndry N] Let_def)
qed

lemma fmg_grid:
  assumes "length F = 2 ^ k + 1"
  shows "\<exists>r. fmg_vcycle F h bndry N = Inr r \<and> length r = 2 ^ k + 1 \<and>
     r ! 0 = fst bndry \<and> r ! (2 ^ k) = snd bndry"
  using assms
proof (induction k arbitrary: F h N)
  case 0
  define v where "v = ((zeros_like F)[0 := fst bndry])[length F - 1 := snd bndry]"
  from 0 have f: "length F \<le> 3" "F \<noteq> []" by auto
  have lv: "length v = 2 ^ 0 + 1" using 0 by (simp add: v_def)
  have bv: "v ! 0 = fst bndry" "v ! (2 ^ 0) = snd bndry" using 0 by (simp_all add: v_def)
  from vcycle_loop_grid [OF lv, of F N h] 0 bv fmg_base [OF f, of h bndry N]
  show ?case by (simp add: v_def)
next
  case (Suc k)
  show ?case
  proof (cases "k = 0")
    case True
    define v where "v = ((zeros_like F)[0 := fst bndry])[length F - 1 := snd bndry]"
    from Suc.prems True have f: "length F \<le> 3" "F \<noteq> []" by auto
    have lv: "length v = 2 ^ Suc k + 1" using Suc.prems by (simp add: v_def)
    have bv: "v ! 0 = fst bndry" "v ! (2 ^ Suc k) = snd bndry"
      using Suc.prems True by (simp_all add: v_def)
    from vcycle_loop_grid [OF lv, of F N h] Suc.prems bv fmg_base [OF f, of h bndry N]
    show ?thesis by (simp add: v_def)
  next
    case False
    then have big: "3 < (2::nat) ^ Suc k + 1"
      using two_le_pow2 [of k] by simp
    from restrict_grid [OF Suc.prems] obtain f2h where
      f2: "restrict F = Inr f2h" "length f2h = 2 ^ k + 1" by blast
    from Suc.IH [OF f2(2), of "2 * h" 5] obtain v2h where
      v2: "fmg_vcycle f2h (2 * h) bndry 5 = Inr v2h" "length v2h = 2 ^ k + 1"
        "v2h ! 0 = fst bndry" "v2h ! (2 ^ k) = snd bndry" by blast
    from prolong_grid [OF v2(2)] obtain v1h where
      v1: "prolong v2h = Inr v1h" "length v1h = 2 ^ Suc k + 1"
        "v1h ! 0 = fst bndry" "v1h ! (2 ^ Suc k) = snd bndry"
      using v2 by auto
    have "fmg_vcycle F h bndry N = vcycle_loop N v1h F h"
      using f2 v2 v1 big Suc.prems by (simp add: fmg_vcycle.simps [of F h bndry N])
    with vcycle_loop_grid [OF v1(2) Suc.prems, of N h] v1 show ?thesis by simp
  qed
qed

text \<open>
  \<open>repeatE n f x\<close> calls \<open>f\<close> \<open>n\<close> times in sequence, each call on the result of the call
  before, and stops at the first exception.
\<close>

fun repeatE :: "nat \<Rightarrow> ('a \<Rightarrow> 'a result) \<Rightarrow> 'a \<Rightarrow> 'a result" where
  "repeatE 0 f x = Inr x"
| "repeatE (Suc n) f x = bindE (f x) (repeatE n f)"

lemma repeat_jacobi_grid:
  assumes "length F = length phi"
  shows "\<exists>r. repeatE m (\<lambda>p. jacobi p F h N w) phi = Inr r \<and> length r = length phi \<and>
     r ! 0 = phi ! 0 \<and> r ! (length phi - 1) = phi ! (length phi - 1)"
  using assms
proof (induction m arbitrary: phi)
  case 0
  then show ?case by simp
next
  case (Suc m)
  from jacobi_grid [OF Suc.prems, of h N w] obtain p where
    p: "jacobi phi F h N w = Inr p" "length p = length phi"
      "p ! 0 = phi ! 0" "p ! (length phi - 1) = phi ! (length phi - 1)" by blast
  from p(2) Suc.prems have "length F = length p" by simp
  from Suc.IH [OF this] p show ?case by simp
qed

lemma repeat_vcycle_grid:
  assumes "length phi = 2 ^ k + 1" "length F = 2 ^ k + 1"
  shows "\<exists>r. repeatE m (\<lambda>p. vcycle p F h N) phi = Inr r \<and> length r = 2 ^ k + 1 \<and>
     r ! 0 = phi ! 0 \<and> r ! (2 ^ k) = phi ! (2 ^ k)"
  using assms
proof (induction m arbitrary: phi)
  case 0
  then show ?case by simp
next
  case (Suc m)
  from vcycle_grid [OF Suc.prems, of h N] obtain p where
    p: "vcycle phi F h N = Inr p" "length p = 2 ^ k + 1" "p ! 0 = phi ! 0" "p ! (2 ^ k) = phi ! (2 ^ k)"
    by blast
  from Suc.IH [OF p(2) Suc.prems(2)] p show ?case by simp
qed

subsection \<open>Recursion with a bounded depth\<close>

lemma bindE_Inr_id [simp]: "bindE m Inr = m"
  by (cases m) simp_all

lemma bindE_assoc: "bindE (bindE m f) g = bindE m (\<lambda>x. bindE (f x) g)"
  by (cases m) simp_all

text \<open>
  \<open>vcycle_lim d\<close> and \<open>fmg_lim d\<close> are \<open>vcycle\<close> and \<open>fmg_vcycle\<close> with at most \<open>d\<close>
  nested activations of the function itself, the call from outside counted: a call that
  would be activation \<open>d + 1\<close> raises \<open>RecursionError\<close>, as Python's recursion limit
  does. The bodies are those of \<open>vcycle\<close> and \<open>fmg_vcycle\<close>.
\<close>

fun vcycle_lim :: "nat \<Rightarrow> real list \<Rightarrow> real list \<Rightarrow> real \<Rightarrow> nat \<Rightarrow> real list result" where
  "vcycle_lim 0 phi F h Niter = Inl RecursionError"
| "vcycle_lim (Suc d) phi F h Niter =
     bindE (jacobi phi F h Niter (2 / 3)) (\<lambda>phi1.
     bindE (if length phi1 > 3
            then bindE (residual phi1 F h) (\<lambda>r.
                 bindE (restrict r) (\<lambda>F2.
                 bindE (vcycle_lim d (zeros_like F2) (np_divide F2 (h ^ 2)) (2 * h) Niter) (\<lambda>v2.
                 bindE (prolong v2) (\<lambda>p.
                 np_iadd phi1 p))))
            else Inr phi1) (\<lambda>phi1'.
     jacobi phi1' F h Niter (2 / 3)))"

fun fmg_lim :: "nat \<Rightarrow> real list \<Rightarrow> real \<Rightarrow> real \<times> real \<Rightarrow> nat \<Rightarrow> real list result" where
  "fmg_lim 0 F h bndry Niter = Inl RecursionError"
| "fmg_lim (Suc d) F h bndry Niter =
     bindE (if length F > 3
            then bindE (restrict F) (\<lambda>f2h.
                 bindE (fmg_lim d f2h (2 * h) bndry 5) (\<lambda>v2h.
                 prolong v2h))
            else (let v1h = zeros_like F in
                  if v1h = [] then Inl IndexError
                  else Inr ((v1h[0 := fst bndry])[length v1h - 1 := snd bndry]))) (\<lambda>v1h.
     vcycle_loop Niter v1h F h)"

lemma vcycle_lim_enough:
  assumes "length phi = 2 ^ k + 1" "length F = 2 ^ k + 1" "k \<le> d" "0 < d"
  shows "vcycle_lim d phi F h N = vcycle phi F h N"
  using assms
proof (induction d arbitrary: k phi F h)
  case 0
  then show ?case by simp
next
  case (Suc d)
  from Suc.prems have lf: "length F = length phi" by simp
  from jacobi_grid [OF lf, of h N "2 / 3"] obtain phi1 where
    p1: "jacobi phi F h N (2 / 3) = Inr phi1" "length phi1 = length phi" by blast
  show ?case
  proof (cases "3 < length phi1")
    case False
    with p1 show ?thesis by (simp add: vcycle.simps [of phi F h N])
  next
    case True
    with p1 Suc.prems obtain j where k: "k = Suc j"
      by (cases k) auto
    from True p1 Suc.prems k have j0: "0 < j" by (cases j) auto
    from p1(2) lf have lf1: "length F = length phi1" by simp
    from residual_grid [OF lf1, of h] obtain r where
      r: "residual phi1 F h = Inr r" "length r = length phi1" by blast
    from r(2) p1(2) Suc.prems k have "length r = 2 ^ Suc j + 1" by simp
    from restrict_grid [OF this] obtain F2 where
      f2: "restrict r = Inr F2" "length F2 = 2 ^ j + 1" by blast
    have "vcycle_lim d (zeros_like F2) (np_divide F2 (h ^ 2)) (2 * h) N =
          vcycle (zeros_like F2) (np_divide F2 (h ^ 2)) (2 * h) N"
      using f2 k Suc.prems j0 by (intro Suc.IH [of _ j]) simp_all
    with p1 r f2 True show ?thesis by (simp add: vcycle.simps [of phi F h N])
  qed
qed

lemma vcycle_lim_short:
  assumes "length phi = 2 ^ k + 1" "length F = 2 ^ k + 1" "d < k"
  shows "vcycle_lim d phi F h N = Inl RecursionError"
  using assms
proof (induction d arbitrary: k phi F h)
  case 0
  then show ?case by simp
next
  case (Suc d)
  from Suc.prems obtain j where k: "k = Suc j" "d < j" by (cases k) auto
  from Suc.prems have lf: "length F = length phi" by simp
  from jacobi_grid [OF lf, of h N "2 / 3"] obtain phi1 where
    p1: "jacobi phi F h N (2 / 3) = Inr phi1" "length phi1 = length phi" by blast
  from k have "0 < j" by simp
  from two_le_pow2 [OF this] p1 Suc.prems k have big: "3 < length phi1" by simp
  from p1(2) lf have lf1: "length F = length phi1" by simp
  from residual_grid [OF lf1, of h] obtain r where
    r: "residual phi1 F h = Inr r" "length r = length phi1" by blast
  from r(2) p1(2) Suc.prems k have "length r = 2 ^ Suc j + 1" by simp
  from restrict_grid [OF this] obtain F2 where
    f2: "restrict r = Inr F2" "length F2 = 2 ^ j + 1" by blast
  have "vcycle_lim d (zeros_like F2) (np_divide F2 (h ^ 2)) (2 * h) N = Inl RecursionError"
    using f2 k by (intro Suc.IH [of _ j]) simp_all
  with p1 r f2 big show ?case by simp
qed

lemma fmg_lim_enough:
  assumes "length F = 2 ^ k + 1" "k \<le> d" "0 < d"
  shows "fmg_lim d F h bndry N = fmg_vcycle F h bndry N"
  using assms
proof (induction d arbitrary: k F h N)
  case 0
  then show ?case by simp
next
  case (Suc d)
  show ?case
  proof (cases "3 < length F")
    case False
    then show ?thesis by (simp add: fmg_vcycle.simps [of F h bndry N])
  next
    case True
    with Suc.prems obtain j where k: "k = Suc j" by (cases k) auto
    from True Suc.prems k have j0: "0 < j" by (cases j) auto
    from restrict_grid [of F j] Suc.prems k obtain f2h where
      f2: "restrict F = Inr f2h" "length f2h = 2 ^ j + 1" by auto
    have "fmg_lim d f2h (2 * h) bndry 5 = fmg_vcycle f2h (2 * h) bndry 5"
      using f2 k Suc.prems j0 by (intro Suc.IH [of _ j]) simp_all
    with f2 True show ?thesis by (simp add: fmg_vcycle.simps [of F h bndry N])
  qed
qed

lemma fmg_lim_short:
  assumes "length F = 2 ^ k + 1" "d < k"
  shows "fmg_lim d F h bndry N = Inl RecursionError"
  using assms
proof (induction d arbitrary: k F h N)
  case 0
  then show ?case by simp
next
  case (Suc d)
  from Suc.prems obtain j where k: "k = Suc j" "d < j" by (cases k) auto
  then have "0 < j" by simp
  from two_le_pow2 [OF this] Suc.prems k have big: "3 < length F" by simp
  from restrict_grid [of F j] Suc.prems k obtain f2h where
    f2: "restrict F = Inr f2h" "length f2h = 2 ^ j + 1" by auto
  have "fmg_lim d f2h (2 * h) bndry 5 = Inl RecursionError"
    using f2 k by (intro Suc.IH [of _ j]) simp_all
  with f2 big show ?case by simp
qed


subsection \<open>Grids of other sizes\<close>

lemma jacobi_step_mismatch:
  assumes "length F = Suc (length phi)" "3 \<le> length phi" "length phistar = length phi"
  shows "jacobi_step F h w (phi, phistar) = Inl ValueError"
proof -
  let ?a = "slice_to_m2 phi" and ?b = "slice_from_2 phi" and ?c = "np_scale (h ^ 2) (slice_1_m1 F)"
  have s1: "np_add ?a ?b = Inr (map2 (+) ?a ?b)" by (simp add: np_add_same)
  have l1: "length (map2 (+) ?a ?b) = length phi - 2" by simp
  have lc: "length ?c = length phi - 1" using assms by simp
  show ?thesis
  proof (cases "length phi = 3")
    case True
    then have "np_add (map2 (+) ?a ?b) ?c = Inr (map ((+) (hd (map2 (+) ?a ?b))) ?c)"
      using l1 lc unfolding np_add_def np_binop_def by simp
    moreover have "set_slice_1_m1 phistar (np_scale 0.5 (map ((+) (hd (map2 (+) ?a ?b))) ?c)) = Inl ValueError"
      using True lc assms(3) by (simp add: set_slice_1_m1_def Let_def)
    ultimately show ?thesis using s1 by (simp add: jacobi_step_def)
  next
    case False
    with assms have "np_add (map2 (+) ?a ?b) ?c = Inl ValueError"
      using l1 lc unfolding np_add_def np_binop_def by auto
    then show ?thesis using s1 by (simp add: jacobi_step_def)
  qed
qed

lemma jacobi_mismatch:
  assumes "length F = Suc (length phi)" "3 \<le> length phi" "0 < N"
  shows "jacobi phi F h N w = Inl ValueError"
proof -
  from assms(3) obtain N' where "N = Suc N'" by (cases N) auto
  with jacobi_step_mismatch [OF assms(1,2), of phi h w] show ?thesis by (simp add: jacobi_def)
qed

lemma vcycle_mismatch:
  assumes "length F = Suc (length phi)" "3 \<le> length phi" "0 < N"
  shows "vcycle phi F h N = Inl ValueError"
  using jacobi_mismatch [OF assms, of h "2 / 3"] by (simp add: vcycle.simps [of phi F h N])

lemma vcycle_loop_mismatch:
  assumes "length F = Suc (length v)" "3 \<le> length v"
  shows "vcycle_loop (Suc m) v F h = Inl ValueError"
  using vcycle_mismatch [OF assms, of 50 h] by simp

lemma fmg_invalid:
  assumes "2 \<le> length F" "\<forall>k. length F \<noteq> 2 ^ k + 1" "0 < N"
  shows "fmg_vcycle F h bndry N = Inl ValueError"
  using assms
proof (induction "length F" arbitrary: F h N rule: less_induct)
  case less
  let ?L = "length F"
  from less.prems(2) have "?L \<noteq> 2 ^ 0 + 1" "?L \<noteq> 2 ^ 1 + 1" by blast+
  with less.prems(1) have big: "3 < ?L" by simp
  then have ne: "F \<noteq> []" by auto
  from less.prems(3) obtain N' where N: "N = Suc N'" by (cases N) auto
  define f2h where "f2h = restrict_entries F"
  have f2: "restrict F = Inr f2h" "length f2h = (?L + 1) div 2"
    using restrict_eq [OF ne] by (simp_all add: f2h_def)
  have unfold: "fmg_vcycle F h bndry N =
      bindE (bindE (fmg_vcycle f2h (2 * h) bndry 5) prolong) (\<lambda>v1h. vcycle_loop N v1h F h)"
    using big f2 by (simp add: fmg_vcycle.simps [of F h bndry N])
  show ?case
  proof (cases "\<exists>j. length f2h = 2 ^ j + 1")
    case True
    then obtain j where j: "length f2h = 2 ^ j + 1" by blast
    from fmg_grid [OF j, of "2 * h" bndry 5] obtain v2h where
      v2: "fmg_vcycle f2h (2 * h) bndry 5 = Inr v2h" "length v2h = 2 ^ j + 1" by blast
    from prolong_grid [OF v2(2)] obtain v1h where
      v1: "prolong v2h = Inr v1h" "length v1h = 2 ^ Suc j + 1" by blast
    from less.prems(2) have "?L \<noteq> 2 ^ Suc j + 1" by blast
    with j f2(2) have "?L = Suc (2 ^ Suc j + 1)" by simp
    with v1 big have "length F = Suc (length v1h)" "3 \<le> length v1h" by simp_all
    from vcycle_loop_mismatch [OF this, of N' h] unfold v2 v1 N show ?thesis by simp
  next
    case False
    then have "\<forall>k. length f2h \<noteq> 2 ^ k + 1" by blast
    moreover have "2 \<le> length f2h" "length f2h < ?L" using f2(2) big by simp_all
    moreover have "0 < (5::nat)" by simp
    ultimately have "fmg_vcycle f2h (2 * h) bndry 5 = Inl ValueError"
      using less.hyps [of f2h 5 "2 * h"] by blast
    with unfold show ?thesis by simp
  qed
qed


lemma solve_invalid:
  assumes "2 \<le> n" "\<forall>k::nat. n \<noteq> 2 ^ k"
  shows "solve bndry n Niter = Inl ValueError"
proof -
  let ?F = "replicate (nat (n + 1)) (0::real)"
  have "nat (n + 1) \<noteq> 2 ^ k + 1" for k
  proof
    assume "nat (n + 1) = 2 ^ k + 1"
    then have "int (nat (n + 1)) = int (2 ^ k + 1)" by simp
    with assms(1) have "n = 2 ^ k" by simp
    with assms(2) show False by blast
  qed
  then have "\<forall>k. length ?F \<noteq> 2 ^ k + 1" by simp
  moreover have "2 \<le> length ?F" using assms(1) by simp
  ultimately have "fmg_vcycle ?F (1 / real_of_int n) bndry 5 = Inl ValueError"
    by (intro fmg_invalid) simp_all
  with assms(1) show ?thesis by (simp add: solve_def Let_def)
qed

lemma sweep_spec_tiny: "length phi \<le> 2 \<Longrightarrow> sweep_spec phi F h w = phi"
proof -
  assume "length phi \<le> 2"
  then have "sweep_spec phi F h w = map (\<lambda>j. phi ! j) [0..<length phi]"
    unfolding sweep_spec_def by (intro map_cong) auto
  then show ?thesis by (simp add: map_nth)
qed

lemma smoother_spec_tiny: "length phi \<le> 2 \<Longrightarrow> smoother_spec phi F h k w = phi"
  by (induction k) (simp_all add: smoother_spec_def sweep_spec_tiny)

lemma vcycle_tiny:
  assumes "length F = length phi" "length phi \<le> 2"
  shows "vcycle phi F h N = Inr phi"
proof -
  have "jacobi phi F h N (2 / 3) = Inr phi"
    using jacobi_eq [OF assms(1), of h N "2 / 3"] smoother_spec_tiny [OF assms(2)] by simp
  with assms(2) show ?thesis by (simp add: vcycle.simps [of phi F h N])
qed

lemma vcycle_loop_tiny:
  assumes "length F = length v" "length v \<le> 2"
  shows "vcycle_loop m v F h = Inr v"
  by (induction m) (simp_all add: vcycle_tiny [OF assms])

lemma solve_one: "solve (a, b) 1 Niter = Inr [(0, a, a, 0), (1, b, b, 0)]"
proof -
  have f: "fmg_vcycle [0, 0] 1 (a, b) 5 = Inr [a, b]"
    using fmg_base [of "[0, 0]" 1 "(a, b)" 5] vcycle_loop_tiny [of "[0, 0]" "[a, b]" 5 1]
    by (simp add: zeros_like_def)
  have r: "replicate (nat (1 + 1)) (0::real) = [0, 0]" by (simp add: numeral_2_eq_2)
  have l: "linspace01 (nat (1 + 1)) = [0, 1]" by (simp add: linspace01_def upt_rec)
  have u: "[0..<nat (1 + 1)] = [0, 1]" by (simp add: upt_rec)
  show ?thesis
    unfolding solve_def Let_def r l u using f by simp
qed

lemma solve_zero: "solve bndry 0 Niter = Inl ZeroDivisionError"
  by (simp add: solve_def Let_def)

lemma solve_minus_one: "solve bndry (- 1) Niter = Inl IndexError"
  by (simp add: solve_def Let_def fmg_vcycle.simps [of "[]"] zeros_like_def)

lemma solve_negative: "n < - 1 \<Longrightarrow> solve bndry n Niter = Inl ValueError"
  by (simp add: solve_def)

lemma three_not_power_of_two: "\<forall>k::nat. (3::int) \<noteq> 2 ^ k"
proof
  fix k :: nat
  show "(3::int) \<noteq> 2 ^ k"
  proof (cases k)
    case 0
    then show ?thesis by simp
  next
    case (Suc j)
    have "even ((2::int) ^ Suc j)" by simp
    moreover have "odd (3::int)" by simp
    ultimately show ?thesis using Suc by metis
  qed
qed

subsection \<open>The error against the exact solution\<close>

text \<open>
  The maximum over all grid indices of the absolute difference of two fields, as the
  specification measures the error of a field against the exact solution.
\<close>

definition max_abs_error :: "real list \<Rightarrow> real list \<Rightarrow> real" where
  "max_abs_error xs ys = foldr max (map2 (\<lambda>x y. \<bar>x - y\<bar>) xs ys) 0"

lemma jacobi_eval:
  "length F = length phi \<Longrightarrow> smoother_spec phi F h k w = r \<Longrightarrow> jacobi phi F h k w = Inr r"
  using jacobi_eq [of F phi h k w] by simp

lemma residual_eval:
  "length F = length phi \<Longrightarrow>
   map (\<lambda>j. if 0 < j \<and> j < length phi - 1
             then h ^ 2 * F ! j - (- phi ! (j - 1) + 2 * phi ! j - phi ! (j + 1))
             else h ^ 2 * F ! j) [0..<length phi] = r \<Longrightarrow> residual phi F h = Inr r"
  using residual_eq [of F phi h] by simp

lemma restrict_eval: "v \<noteq> [] \<Longrightarrow> restrict_entries v = r \<Longrightarrow> restrict v = Inr r"
  using restrict_eq [of v] by simp

lemma prolong_eval: "v \<noteq> [] \<Longrightarrow> prolong_entries v = r \<Longrightarrow> prolong v = Inr r"
  using prolong_eq [of v] by simp

lemma vcycle_sweeps_1:
  "vcycle [0, 0, 0, 0, 0] [0, 1, - 1, 1, 0] (1 / 4) 1 = Inr [0, 13 / 432, - 1 / 648, 13 / 432, 0]"
proof -
  have p1: "jacobi [0, 0, 0, 0, 0] [0, 1, - 1, 1, 0] (1 / 4) 1 (2 / 3) = Inr [0, 1 / 48, - 1 / 48, 1 / 48, 0]"
    by (rule jacobi_eval) (simp_all add: smoother_spec_def sweep_spec_def upt_rec power2_eq_square)
  have r: "residual [0, 1 / 48, - 1 / 48, 1 / 48, 0] [0, 1, - 1, 1, 0] (1 / 4) = Inr [0, 0, 1 / 48, 0, 0]"
    by (rule residual_eval) (simp_all add: upt_rec power2_eq_square)
  have f2: "restrict [0, 0, 1 / 48, 0, 0] = Inr [0, 1 / 96, 0]"
    by (rule restrict_eval) (simp_all add: restrict_entries_def upt_rec)
  have d: "np_divide [0, 1 / 96, 0] ((1 / 4) ^ 2) = [0, 1 / 6, 0]"
    by (simp add: np_divide_def power2_eq_square)
  have q1: "jacobi [0, 0, 0] [0, 1 / 6, 0] (2 * (1 / 4)) 1 (2 / 3) = Inr [0, 1 / 72, 0]"
    by (rule jacobi_eval) (simp_all add: smoother_spec_def sweep_spec_def upt_rec power2_eq_square)
  have q2: "jacobi [0, 1 / 72, 0] [0, 1 / 6, 0] (2 * (1 / 4)) 1 (2 / 3) = Inr [0, 1 / 54, 0]"
    by (rule jacobi_eval) (simp_all add: smoother_spec_def sweep_spec_def upt_rec power2_eq_square)
  have v2: "vcycle [0, 0, 0] [0, 1 / 6, 0] (2 * (1 / 4)) 1 = Inr [0, 1 / 54, 0]"
    using q1 q2 by (simp add: vcycle.simps [of "[0, 0, 0]"])
  have p: "prolong [0, 1 / 54, 0] = Inr [0, 1 / 108, 1 / 54, 1 / 108, 0]"
    by (rule prolong_eval) (simp_all add: prolong_entries_def upt_rec)
  have a: "np_iadd [0, 1 / 48, - 1 / 48, 1 / 48, 0] [0, 1 / 108, 1 / 54, 1 / 108, 0]
      = Inr [0, 13 / 432, - 1 / 432, 13 / 432, 0]"
    by (simp add: np_iadd_def)
  have p2: "jacobi [0, 13 / 432, - 1 / 432, 13 / 432, 0] [0, 1, - 1, 1, 0] (1 / 4) 1 (2 / 3)
      = Inr [0, 13 / 432, - 1 / 648, 13 / 432, 0]"
    by (rule jacobi_eval) (simp_all add: smoother_spec_def sweep_spec_def upt_rec power2_eq_square)
  show ?thesis
    using p1 r f2 d v2 p a p2
    by (simp add: vcycle.simps [of "[0, 0, 0, 0, 0]"] zeros_like_def)
qed


lemma vcycle_sweeps_2:
  "vcycle [0, 0, 0, 0, 0] [0, 1, - 1, 1, 0] (1 / 4) 2
     = Inr [0, 197 / 6561, - 43 / 26244, 197 / 6561, 0]"
proof -
  have p1: "jacobi [0, 0, 0, 0, 0] [0, 1, - 1, 1, 0] (1 / 4) 2 (2 / 3) = Inr [0, 1 / 48, - 1 / 72, 1 / 48, 0]"
    by (rule jacobi_eval)
      (simp_all add: smoother_spec_def sweep_spec_def upt_rec power2_eq_square numeral_2_eq_2)
  have r: "residual [0, 1 / 48, - 1 / 72, 1 / 48, 0] [0, 1, - 1, 1, 0] (1 / 4)
      = Inr [0, 1 / 144, 1 / 144, 1 / 144, 0]"
    by (rule residual_eval) (simp_all add: upt_rec power2_eq_square)
  have f2: "restrict [0, 1 / 144, 1 / 144, 1 / 144, 0] = Inr [0, 1 / 144, 0]"
    by (rule restrict_eval) (simp_all add: restrict_entries_def upt_rec)
  have d: "np_divide [0, 1 / 144, 0] ((1 / 4) ^ 2) = [0, 1 / 9, 0]"
    by (simp add: np_divide_def power2_eq_square)
  have q1: "jacobi [0, 0, 0] [0, 1 / 9, 0] (2 * (1 / 4)) 2 (2 / 3) = Inr [0, 1 / 81, 0]"
    by (rule jacobi_eval)
      (simp_all add: smoother_spec_def sweep_spec_def upt_rec power2_eq_square numeral_2_eq_2)
  have q2: "jacobi [0, 1 / 81, 0] [0, 1 / 9, 0] (2 * (1 / 4)) 2 (2 / 3) = Inr [0, 10 / 729, 0]"
    by (rule jacobi_eval)
      (simp_all add: smoother_spec_def sweep_spec_def upt_rec power2_eq_square numeral_2_eq_2)
  have v2: "vcycle [0, 0, 0] [0, 1 / 9, 0] (2 * (1 / 4)) 2 = Inr [0, 10 / 729, 0]"
    using q1 q2 by (simp add: vcycle.simps [of "[0, 0, 0]"])
  have p: "prolong [0, 10 / 729, 0] = Inr [0, 5 / 729, 10 / 729, 5 / 729, 0]"
    by (rule prolong_eval) (simp_all add: prolong_entries_def upt_rec)
  have a: "np_iadd [0, 1 / 48, - 1 / 72, 1 / 48, 0] [0, 5 / 729, 10 / 729, 5 / 729, 0]
      = Inr [0, 323 / 11664, - 1 / 5832, 323 / 11664, 0]"
    by (simp add: np_iadd_def)
  have p2: "jacobi [0, 323 / 11664, - 1 / 5832, 323 / 11664, 0] [0, 1, - 1, 1, 0] (1 / 4) 2 (2 / 3)
      = Inr [0, 197 / 6561, - 43 / 26244, 197 / 6561, 0]"
    by (rule jacobi_eval)
      (simp_all add: smoother_spec_def sweep_spec_def upt_rec power2_eq_square numeral_2_eq_2)
  show ?thesis
    using p1 r f2 d v2 p a p2
    by (simp add: vcycle.simps [of "[0, 0, 0, 0, 0]"] zeros_like_def)
qed

lemma exact_five:
  "residual [0, 1 / 32, 0, 1 / 32, 0] [0, 1, - 1, 1, 0] (1 / 4) = Inr [0, 0, 0, 0, 0]"
  by (rule residual_eval) (simp_all add: upt_rec power2_eq_square)

text \<open>
  The exact solution of the discretised equation on three points with the boundary pair
  \<open>(a, b)\<close>: the middle value solves \<open>- a + 2 u - b = h\<^sup>2 F\<^sub>1\<close>.
\<close>

definition exact_three_point :: "real \<Rightarrow> real \<Rightarrow> real list \<Rightarrow> real \<Rightarrow> real list" where
  "exact_three_point a b F h = [a, (a + b + h ^ 2 * F ! 1) / 2, b]"

lemma three_cases: "length xs = 3 \<Longrightarrow> xs = [xs ! 0, xs ! 1, xs ! 2]"
  by (cases xs; cases "tl xs"; cases "tl (tl xs)") auto

lemma sweep_three:
  "sweep_spec [a, x, b] [f0, f1, f2] h (2 / 3) = [a, (a + b + h ^ 2 * f1) / 2 + (x - (a + b + h ^ 2 * f1) / 2) / 3, b]"
  by (simp add: sweep_spec_def upt_rec field_simps)

lemma smoother_three:
  "smoother_spec [a, x, b] [f0, f1, f2] h k (2 / 3) =
     [a, (a + b + h ^ 2 * f1) / 2 + (x - (a + b + h ^ 2 * f1) / 2) / 3 ^ k, b]"
proof (induction k)
  case 0
  show ?case by (simp add: smoother_spec_def)
next
  case (Suc k)
  show ?case unfolding smoother_spec_Suc Suc sweep_three by simp
qed

lemma jacobi_three:
  "jacobi [a, x, b] [f0, f1, f2] h k (2 / 3) =
     Inr [a, (a + b + h ^ 2 * f1) / 2 + (x - (a + b + h ^ 2 * f1) / 2) / 3 ^ k, b]"
  by (rule jacobi_eval) (simp_all add: smoother_three)

lemma vcycle_three:
  "vcycle [a, x, b] [f0, f1, f2] h k =
     Inr [a, (a + b + h ^ 2 * f1) / 2 + (x - (a + b + h ^ 2 * f1) / 2) / 9 ^ k, b]"
proof -
  have "(9::real) ^ k = 3 ^ k * 3 ^ k"
    by (simp add: power_mult_distrib [symmetric])
  then show ?thesis
    by (simp add: vcycle.simps [of "[a, x, b]"] jacobi_three)
qed

lemma vcycle_loop_three:
  "vcycle_loop m [a, x, b] [f0, f1, f2] h =
     Inr [a, (a + b + h ^ 2 * f1) / 2 + (x - (a + b + h ^ 2 * f1) / 2) / (9 ^ 50) ^ m, b]"
proof (induction m arbitrary: x)
  case 0
  show ?case by simp
next
  case (Suc m)
  show ?case by (simp add: vcycle_three Suc del: power_Suc) (simp add: field_simps)
qed

lemma fmg_three:
  "fmg_vcycle [f0, f1, f2] h (a, b) N =
     Inr [a, (a + b + h ^ 2 * f1) / 2 + (0 - (a + b + h ^ 2 * f1) / 2) / (9 ^ 50) ^ N, b]"
  using fmg_base [of "[f0, f1, f2]" h "(a, b)" N]
  by (simp add: zeros_like_def vcycle_loop_three)

lemma error_three: "max_abs_error [a, u + e, b] [a, u, b] = \<bar>e\<bar>"
  by (simp add: max_abs_error_def)

lemma shrink_mono:
  fixes e :: real
  assumes "1 \<le> c" "k \<le> k'"
  shows "\<bar>e / c ^ k'\<bar> \<le> \<bar>e / c ^ k\<bar>"
proof -
  have "c ^ k \<le> c ^ k'" using assms by (simp add: power_increasing)
  moreover have "0 < c ^ k" using assms by simp
  ultimately have "\<bar>e\<bar> / c ^ k' \<le> \<bar>e\<bar> / c ^ k"
    by (simp add: frac_le)
  moreover have "0 < c ^ k'" using assms by simp
  ultimately show ?thesis using \<open>0 < c ^ k\<close> by simp
qed


section \<open>Claims about the smoother and the residual\<close>



text \<open>
  C1 (amended). For a field \<open>phi\<close> and a source \<open>F\<close> of equal length, \<open>residual\<close> returns
  a field of that length whose interior entry \<open>j\<close> is
  \<open>h\<^sup>2 F\<^sub>j - (- phi\<^sub>j\<^sub>-\<^sub>1 + 2 phi\<^sub>j - phi\<^sub>j\<^sub>+\<^sub>1)\<close> and whose two boundary entries are
  \<open>h\<^sup>2 F\<^sub>0\<close> and \<open>h\<^sup>2 F\<^sub>n\<close>: the array \<open>d2phi\<close> is zero at the boundary, the source term is
  not removed there. The boundary entries are zero when \<open>F\<close> vanishes at the boundary.
\<close>

theorem residual_entries:
  assumes "length F = length phi"
  shows "residual phi F h =
    Inr (map (\<lambda>j. if 0 < j \<and> j < length phi - 1
                  then h ^ 2 * F ! j - (- phi ! (j - 1) + 2 * phi ! j - phi ! (j + 1))
                  else h ^ 2 * F ! j) [0..<length phi])"
  using assms by (rule residual_eq)

theorem residual_entries_witness:
  "length [1, 0, 0 :: real] = length [0, 1, 0 :: real] \<and>
   residual [0, 1, 0] [1, 0, 0] 2 = Inr [4, - 2, 0]"
  using residual_entries [of "[1, 0, 0]" "[0, 1, 0]" 2]
  by (simp add: upt_rec)

text \<open>
  C1 as stated fails: with \<open>phi = [0, 0, 0]\<close>, \<open>F = [1, 0, 0]\<close> and \<open>h = 1\<close> the entry
  at index 0 of the residual is 1, not zero.
\<close>

theorem residual_boundary_counterexample:
  "residual [0, 0, 0] [1, 0, 0] 1 = Inr [1, 0, 0] \<and> [1, 0, 0 :: real] ! 0 \<noteq> 0"
  by (simp add: residual_def np_add_def np_sub_def np_binop_def np_scale_def slice_to_m2_def
      slice_from_2_def slice_1_m1_def set_slice_1_m1_def zeros_like_def)

section \<open>Claims about the grid transfers\<close>

text \<open>
  C8. Restricting the constant field of odd length \<open>2 m + 1\<close> with value \<open>c\<close> and
  prolongating the result returns the constant field of the same length \<open>2 m + 1\<close> with
  every entry equal to \<open>c\<close>. It holds for every \<open>m\<close>, also for the single point
  \<open>m = 0\<close>.
\<close>

theorem restrict_prolong_constant:
  "bindE (restrict (replicate (2 * m + 1) c)) prolong = Inr (replicate (2 * m + 1) c)"
proof -
  have "restrict (replicate (2 * m + 1) c) = Inr (replicate (m + 1) c)"
    using restrict_eq [of "replicate (2 * m + 1) c"] restrict_entries_replicate [of "2 * m + 1" c]
    by simp
  moreover have "prolong (replicate (m + 1) c) = Inr (replicate (2 * m + 1) c)"
    using prolong_eq [of "replicate (m + 1) c"] prolong_entries_replicate [of "m + 1" c]
    by simp
  ultimately show ?thesis by simp
qed




section \<open>Claims about the V-cycle and full multigrid\<close>






text \<open>
  C7. On a grid of \<open>n + 1\<close> points with \<open>n = 2\<^sup>k\<close>, \<open>k \<ge> 1\<close>, and \<open>h \<noteq> 0\<close>, \<open>vcycle\<close> and
  \<open>fmg_vcycle\<close> return a field. A bound \<open>d \<ge> k = log\<^sub>2 n\<close> on the nested activations of
  each function does not change its result, and a bound below \<open>k\<close> makes it raise
  \<open>RecursionError\<close>: the depth is \<open>log\<^sub>2 n\<close>, the recursion goes on while the grid has more
  than 3 points, and the grid of the recursive call has \<open>2\<^sup>k\<^sup>-\<^sup>1 + 1\<close> points.
\<close>

theorem recursion_terminates_within_log2:
  assumes "length phi = 2 ^ k + 1" "length F = 2 ^ k + 1" "1 \<le> k" "h \<noteq> 0"
  shows "(\<exists>r. vcycle phi F h N = Inr r \<and> length r = 2 ^ k + 1) \<and>
         (\<exists>r. fmg_vcycle F h bndry N = Inr r \<and> length r = 2 ^ k + 1) \<and>
         (\<forall>d. k \<le> d \<longrightarrow> vcycle_lim d phi F h N = vcycle phi F h N \<and>
                        fmg_lim d F h bndry N = fmg_vcycle F h bndry N) \<and>
         (\<forall>d. d < k \<longrightarrow> vcycle_lim d phi F h N = Inl RecursionError \<and>
                        fmg_lim d F h bndry N = Inl RecursionError) \<and>
         (\<exists>f2h. restrict F = Inr f2h \<and> length f2h = 2 ^ (k - 1) + 1)"
proof (intro conjI allI impI)
  from vcycle_grid [OF assms(1,2), of h N] show "\<exists>r. vcycle phi F h N = Inr r \<and> length r = 2 ^ k + 1"
    by blast
next
  from fmg_grid [OF assms(2), of h bndry N]
  show "\<exists>r. fmg_vcycle F h bndry N = Inr r \<and> length r = 2 ^ k + 1" by blast
next
  fix d assume "k \<le> d"
  with assms(3) have "0 < d" by simp
  from vcycle_lim_enough [OF assms(1,2) \<open>k \<le> d\<close> this]
  show "vcycle_lim d phi F h N = vcycle phi F h N" .
next
  fix d assume "k \<le> d"
  with assms(3) have "0 < d" by simp
  from fmg_lim_enough [OF assms(2) \<open>k \<le> d\<close> this]
  show "fmg_lim d F h bndry N = fmg_vcycle F h bndry N" .
next
  fix d assume "d < k"
  from vcycle_lim_short [OF assms(1,2) this]
  show "vcycle_lim d phi F h N = Inl RecursionError" .
next
  fix d assume "d < k"
  from fmg_lim_short [OF assms(2) this]
  show "fmg_lim d F h bndry N = Inl RecursionError" .
next
  from assms(3) obtain j where "k = Suc j" by (cases k) auto
  with restrict_grid [of F j] assms(2)
  show "\<exists>f2h. restrict F = Inr f2h \<and> length f2h = 2 ^ (k - 1) + 1" by simp
qed

theorem recursion_terminates_within_log2_witness:
  "length [1, 0, 0, 0, 0 :: real] = 2 ^ 2 + 1 \<and> length [0, 0, 0, 0, 0 :: real] = 2 ^ 2 + 1 \<and>
   (1 :: nat) \<le> 2 \<and> (1 / 4 :: real) \<noteq> 0 \<and>
   (\<exists>r. vcycle [1, 0, 0, 0, 0] [0, 0, 0, 0, 0] (1 / 4) 50 = Inr r \<and> length r = 2 ^ 2 + 1) \<and>
   (\<exists>r. fmg_vcycle [0, 0, 0, 0, 0] (1 / 4) (1, 0) 5 = Inr r \<and> length r = 2 ^ 2 + 1) \<and>
   (2 :: nat) \<le> 2 \<and>
   vcycle_lim 2 [1, 0, 0, 0, 0] [0, 0, 0, 0, 0] (1 / 4) 50 =
     vcycle [1, 0, 0, 0, 0] [0, 0, 0, 0, 0] (1 / 4) 50 \<and>
   fmg_lim 2 [0, 0, 0, 0, 0] (1 / 4) (1, 0) 5 = fmg_vcycle [0, 0, 0, 0, 0] (1 / 4) (1, 0) 5 \<and>
   (1 :: nat) < 2 \<and>
   vcycle_lim 1 [1, 0, 0, 0, 0] [0, 0, 0, 0, 0] (1 / 4) 50 = Inl RecursionError \<and>
   fmg_lim 1 [0, 0, 0, 0, 0] (1 / 4) (1, 0) 5 = Inl RecursionError \<and>
   (\<exists>f2h. restrict [0, 0, 0, 0, 0] = Inr f2h \<and> length f2h = 2 ^ (2 - 1) + 1)"
proof -
  have l: "length [1, 0, 0, 0, 0 :: real] = 2 ^ 2 + 1" "length [0, 0, 0, 0, 0 :: real] = 2 ^ 2 + 1"
    "(1 :: nat) \<le> 2" "(1 / 4 :: real) \<noteq> 0"
    by simp_all
  note t = recursion_terminates_within_log2 [OF l, of 50 "(1, 0)"]
  note u = recursion_terminates_within_log2 [OF l, of 5 "(1, 0)"]
  from t have a: "\<exists>r. vcycle [1, 0, 0, 0, 0] [0, 0, 0, 0, 0] (1 / 4) 50 = Inr r \<and> length r = 2 ^ 2 + 1"
    by blast
  from u have b: "\<exists>r. fmg_vcycle [0, 0, 0, 0, 0] (1 / 4) (1, 0) 5 = Inr r \<and> length r = 2 ^ 2 + 1"
    by blast
  from t have c: "vcycle_lim 2 [1, 0, 0, 0, 0] [0, 0, 0, 0, 0] (1 / 4) 50 =
     vcycle [1, 0, 0, 0, 0] [0, 0, 0, 0, 0] (1 / 4) 50" by blast
  from u have d: "fmg_lim 2 [0, 0, 0, 0, 0] (1 / 4) (1, 0) 5 = fmg_vcycle [0, 0, 0, 0, 0] (1 / 4) (1, 0) 5"
    by blast
  have lt: "(1 :: nat) < 2" by simp
  from t lt have e: "vcycle_lim 1 [1, 0, 0, 0, 0] [0, 0, 0, 0, 0] (1 / 4) 50 = Inl RecursionError"
    by blast
  from u lt have f: "fmg_lim 1 [0, 0, 0, 0, 0] (1 / 4) (1, 0) 5 = Inl RecursionError"
    by blast
  from u have g: "\<exists>f2h. restrict [0, 0, 0, 0, 0] = Inr f2h \<and> length f2h = 2 ^ (2 - 1) + 1"
    by blast
  from l a b c d e f g lt show ?thesis by blast
qed






section \<open>Claims about the driver\<close>

text \<open>
  C5 (amended). The notebook has no check of the grid size and no \<open>InvalidGridSize\<close>
  error. For every \<open>n \<ge> 2\<close> that is not a power of two \<open>solve\<close> fails with numpy's
  \<open>ValueError\<close>, which the smoother or the coarse-grid correction raises on arrays of
  different lengths; for \<open>n < - 1\<close> it fails with \<open>ValueError\<close>, for \<open>n = - 1\<close> with
  \<open>IndexError\<close> and for \<open>n = 0\<close> with \<open>ZeroDivisionError\<close>; for \<open>n = 1\<close>, a grid of two
  points, it returns the two rows of the boundary pair.
\<close>

theorem solve_invalid_grid:
  "(2 \<le> n \<and> (\<forall>k::nat. n \<noteq> 2 ^ k) \<longrightarrow> solve bndry n Niter = Inl ValueError) \<and>
   (n < - 1 \<longrightarrow> solve bndry n Niter = Inl ValueError) \<and>
   solve bndry (- 1) Niter = Inl IndexError \<and>
   solve bndry 0 Niter = Inl ZeroDivisionError \<and>
   solve (a, b) 1 Niter = Inr [(0, a, a, 0), (1, b, b, 0)]"
  using solve_invalid [of n bndry Niter] solve_negative [of n bndry Niter]
    solve_minus_one [of bndry Niter] solve_zero [of bndry Niter] solve_one [of a b Niter]
  by blast

theorem solve_invalid_grid_witness:
  "(2::int) \<le> 3 \<and> (\<forall>k::nat. (3::int) \<noteq> 2 ^ k) \<and> solve (1, 0) 3 50 = Inl ValueError \<and>
   (- 2 :: int) < - 1 \<and> solve (1, 0) (- 2) 50 = Inl ValueError \<and>
   solve (1, 0) (- 1) 50 = Inl IndexError \<and>
   solve (1, 0) 0 50 = Inl ZeroDivisionError \<and>
   solve (1, 0) 1 50 = Inr [(0, 1, 1, 0), (1, 0, 0, 0)]"
  using solve_invalid_grid [of 3 "(1, 0)" 50 1 0] solve_invalid_grid [of "- 2" "(1, 0)" 50 1 0]
    three_not_power_of_two
  by simp

text \<open>
  C5 as stated fails: \<open>n = 1\<close> gives a grid of two points, which no halving takes to
  three points, and \<open>solve\<close> returns its table instead of failing.
\<close>

theorem solve_returns_on_two_points:
  "solve (1, 0) 1 50 = Inr [(0, 1, 1, 0), (1, 0, 0, 0)] \<and>
   solve (1, 0) 1 50 \<noteq> Inl ValueError"
  using solve_one [of 1 0 50] by simp



end
